theory Spec2Isabelle
  imports Complex_Main
begin

section \<open>Rectangles in a circle: the placement engine of packing_logic.py\<close>

text \<open>
  The engine computes with Python floats. The embedding reads every float as a real number
  and every arithmetic operation (also \<open>math.sqrt\<close>, \<open>math.cos\<close>, \<open>math.sin\<close>,
  \<open>math.radians\<close>) as the exact operation on the reals, so rounding is not part of the model.
  Exceptions of the source are values of the type \<open>error\<close>; a loop of the source that need
  not end is a \<^theory_text>\<open>partial_function\<close> into \<open>option\<close>, with \<open>None\<close> for a run that
  never returns.
\<close>

subsection \<open>Errors\<close>

datatype error = ZeroDivisionError | IndexError | ValueError | OverflowError

definition ebind :: "error + 'a \<Rightarrow> ('a \<Rightarrow> error + 'b) \<Rightarrow> error + 'b" where
  "ebind m f = (case m of Inl e \<Rightarrow> Inl e | Inr v \<Rightarrow> f v)"

text \<open>Python's \<open>xs[i]\<close> for an index \<open>i \<ge> 0\<close>.\<close>

definition py_nth :: "'a list \<Rightarrow> nat \<Rightarrow> error + 'a" where
  "py_nth xs i = (if i < length xs then Inr (xs ! i) else Inl IndexError)"

text \<open>Python's \<open>min\<close> and \<open>max\<close> of a list; both raise ValueError on the empty list.\<close>

fun py_min :: "real list \<Rightarrow> error + real" where
  "py_min [] = Inl ValueError"
| "py_min (v # vs) = Inr (fold min vs v)"

fun py_max :: "real list \<Rightarrow> error + real" where
  "py_max [] = Inl ValueError"
| "py_max (v # vs) = Inr (fold max vs v)"

text \<open>Python's \<open>int(x)\<close> on a float: truncation towards zero.\<close>

definition py_int :: "real \<Rightarrow> int" where
  "py_int v = (if 0 \<le> v then \<lfloor>v\<rfloor> else \<lceil>v\<rceil>)"

subsection \<open>Geometry primitives\<close>

text \<open>
  The fields \<open>x\<close> and \<open>y\<close> of the source's Position are called \<open>pos_x\<close> and \<open>pos_y\<close>.
\<close>

datatype Position = Position (pos_x: real) (pos_y: real)

record Circle =
  radius :: real
  position :: Position

record Rectangle =
  rect_position :: Position
  width :: real
  height :: real
  rotation :: real

type_synonym vec = "real \<times> real"

definition radians :: "real \<Rightarrow> real" where
  "radians deg = deg * (pi / 180)"

definition rotate_local :: "Rectangle \<Rightarrow> vec \<Rightarrow> Position" where
  "rotate_local rect l =
     (let rad = radians (rotation rect);
          cos_r = cos rad;
          sin_r = sin rad;
          rx = fst l * cos_r - snd l * sin_r;
          ry = fst l * sin_r + snd l * cos_r
      in Position (pos_x (rect_position rect) + rx) (pos_y (rect_position rect) + ry))"

definition get_corners :: "Rectangle \<Rightarrow> Position list" where
  "get_corners rect =
     (let hw = width rect / 2;
          hh = height rect / 2;
          local_corners = [(- hw, - hh), (hw, - hh), (hw, hh), (- hw, hh)]
      in map (rotate_local rect) local_corners)"

subsection \<open>Collision detection with the separating axis theorem\<close>

definition dot_product :: "vec \<Rightarrow> vec \<Rightarrow> real" where
  "dot_product v1 v2 = fst v1 * fst v2 + snd v1 * snd v2"

definition normalize_vector :: "vec \<Rightarrow> vec" where
  "normalize_vector v =
     (let len = sqrt ((fst v)\<^sup>2 + (snd v)\<^sup>2)
      in if len = 0 then (0, 0) else (fst v / len, snd v / len))"

definition get_edge_normal :: "vec \<Rightarrow> vec \<Rightarrow> vec" where
  "get_edge_normal v1 v2 =
     (let edge = (fst v2 - fst v1, snd v2 - snd v1)
      in normalize_vector (- snd edge, fst edge))"

definition project_polygon :: "vec \<Rightarrow> vec list \<Rightarrow> error + (real \<times> real)" where
  "project_polygon axis vertices =
     (let projections = map (dot_product axis) vertices
      in ebind (py_min projections) (\<lambda>lo.
         ebind (py_max projections) (\<lambda>hi. Inr (lo, hi))))"

definition projections_overlap :: "real \<times> real \<Rightarrow> real \<times> real \<Rightarrow> real \<Rightarrow> bool" where
  "projections_overlap proj1 proj2 tol =
     (let epsilon = 1 / 1000000;
          gap = min (snd proj1) (snd proj2) - max (fst proj1) (fst proj2)
      in if tol < epsilon then gap > epsilon else gap > - tol - epsilon)"

text \<open>The two corners of edge \<open>i\<close> of a corner list, and the axis the loop derives from them.\<close>

definition edge_axis :: "vec list \<Rightarrow> nat \<Rightarrow> error + vec" where
  "edge_axis corners i =
     ebind (py_nth corners i) (\<lambda>a.
     ebind (py_nth corners ((i + 1) mod 4)) (\<lambda>b. Inr (get_edge_normal a b)))"

definition axis_overlap :: "vec \<Rightarrow> vec list \<Rightarrow> vec list \<Rightarrow> real \<Rightarrow> error + bool" where
  "axis_overlap axis rect1_corners rect2_corners tol =
     ebind (project_polygon axis rect1_corners) (\<lambda>p1.
     ebind (project_polygon axis rect2_corners) (\<lambda>p2.
       Inr (projections_overlap p1 p2 tol)))"

text \<open>The body of \<open>for i in range(4)\<close>, over the indices still to visit.\<close>

fun sat_loop :: "vec list \<Rightarrow> vec list \<Rightarrow> real \<Rightarrow> nat list \<Rightarrow> error + bool" where
  "sat_loop c1 c2 tol [] = Inr True"
| "sat_loop c1 c2 tol (i # rest) =
     ebind (edge_axis c1 i) (\<lambda>axis1.
     ebind (axis_overlap axis1 c1 c2 tol) (\<lambda>o1.
       if \<not> o1 then Inr False
       else
         ebind (edge_axis c2 i) (\<lambda>axis2.
         ebind (axis_overlap axis2 c1 c2 tol) (\<lambda>o2.
           if \<not> o2 then Inr False
           else sat_loop c1 c2 tol rest))))"

definition sat_rectangles_collide :: "vec list \<Rightarrow> vec list \<Rightarrow> real \<Rightarrow> error + bool" where
  "sat_rectangles_collide rect1_corners rect2_corners tol =
     sat_loop rect1_corners rect2_corners tol [0 ..< 4]"

definition corner_tuples :: "Rectangle \<Rightarrow> vec list" where
  "corner_tuples rect = map (\<lambda>c. (pos_x c, pos_y c)) (get_corners rect)"

definition rectangles_overlap :: "Rectangle \<Rightarrow> Rectangle \<Rightarrow> real \<Rightarrow> error + bool" where
  "rectangles_overlap rect1 rect2 tol =
     (let corners1 = corner_tuples rect1;
          corners2 = corner_tuples rect2
      in sat_rectangles_collide corners1 corners2 tol)"

fun rectangle_overlaps_any :: "Rectangle \<Rightarrow> Rectangle list \<Rightarrow> real \<Rightarrow> error + bool" where
  "rectangle_overlaps_any rect [] tol = Inr False"
| "rectangle_overlaps_any rect (placed_rect # rest) tol =
     ebind (rectangles_overlap rect placed_rect tol) (\<lambda>ov.
       if ov then Inr True else rectangle_overlaps_any rect rest tol)"

text \<open>
  The quantity the source calls \<open>gap\<close> inside \<open>projections_overlap\<close>, and the list of the
  eight axes that \<open>sat_rectangles_collide\<close> tests, in the order it tests them. Both are
  used to state properties only.
\<close>

definition gap :: "real \<times> real \<Rightarrow> real \<times> real \<Rightarrow> real" where
  "gap proj1 proj2 = min (snd proj1) (snd proj2) - max (fst proj1) (fst proj2)"

definition tested_axes :: "vec list \<Rightarrow> vec list \<Rightarrow> vec list" where
  "tested_axes c1 c2 =
     concat (map (\<lambda>i. [get_edge_normal (c1 ! i) (c1 ! ((i + 1) mod 4)),
                        get_edge_normal (c2 ! i) (c2 ! ((i + 1) mod 4))]) [0 ..< 4])"

text \<open>The projection of a non-empty corner list, as \<open>project_polygon\<close> returns it.\<close>

definition axis_gap :: "vec \<Rightarrow> vec list \<Rightarrow> vec list \<Rightarrow> real option" where
  "axis_gap axis c1 c2 =
     (case (project_polygon axis c1, project_polygon axis c2) of
        (Inr p1, Inr p2) \<Rightarrow> Some (gap p1 p2)
      | _ \<Rightarrow> None)"

text \<open>Whether the projections of the two corner lists onto one axis overlap.\<close>

definition axis_ok :: "vec list \<Rightarrow> vec list \<Rightarrow> real \<Rightarrow> vec \<Rightarrow> bool" where
  "axis_ok c1 c2 tol ax =
     projections_overlap (projr (project_polygon ax c1)) (projr (project_polygon ax c2)) tol"

subsection \<open>Computations that may raise or not return\<close>

type_synonym 'a run = "(error + 'a) option"

definition py_div :: "real \<Rightarrow> real \<Rightarrow> error + real" where
  "py_div a b = (if b = 0 then Inl ZeroDivisionError else Inr (a / b))"

text \<open>Python's \<open>range(a, b)\<close> and \<open>range(n)\<close>.\<close>

definition py_range :: "int \<Rightarrow> int \<Rightarrow> int list" where
  "py_range a b = [a .. b - 1]"

text \<open>A \<open>for\<close> loop whose body may raise, and one whose body may also not return.\<close>

fun efold :: "('a \<Rightarrow> 's \<Rightarrow> error + 's) \<Rightarrow> 'a list \<Rightarrow> 's \<Rightarrow> error + 's" where
  "efold body [] s = Inr s"
| "efold body (v # vs) s = ebind (body v s) (efold body vs)"

fun rfold :: "('a \<Rightarrow> 's \<Rightarrow> 's run) \<Rightarrow> 'a list \<Rightarrow> 's \<Rightarrow> 's run" where
  "rfold body [] s = Some (Inr s)"
| "rfold body (v # vs) s =
     (case body v s of
        None \<Rightarrow> None
      | Some (Inl e) \<Rightarrow> Some (Inl e)
      | Some (Inr s') \<Rightarrow> rfold body vs s')"

subsection \<open>The packer\<close>

record RectanglePacker =
  circle_diameter :: real
  rect_width :: real
  rect_height :: real
  radius :: real
  tolerance :: real
  safe_zone :: real
  effective_radius :: real

record PackingResult =
  rectangles :: "Rectangle list"
  circle :: "Circle option"
  count :: nat
  strategy :: string
  efficiency :: real
  waste :: real
  used_area :: real
  total_area :: real


definition new_RectanglePacker :: "real \<Rightarrow> real \<Rightarrow> real \<Rightarrow> real \<Rightarrow> real \<Rightarrow> RectanglePacker" where
  "new_RectanglePacker d w h tol sz =
     \<lparr>circle_diameter = d, rect_width = w, rect_height = h, radius = d / 2,
      tolerance = tol, safe_zone = sz, effective_radius = d / 2 - sz\<rparr>"

definition new_PackingResult :: PackingResult where
  "new_PackingResult =
     \<lparr>rectangles = [], circle = None, count = 0, strategy = [],
      efficiency = 0, waste = 0, used_area = 0, total_area = 0\<rparr>"

definition new_Rectangle :: "Position \<Rightarrow> real \<Rightarrow> real \<Rightarrow> real \<Rightarrow> Rectangle" where
  "new_Rectangle pos w h rot = \<lparr>rect_position = pos, width = w, height = h, rotation = rot\<rparr>"

subsection \<open>Containment\<close>

fun fits_loop :: "RectanglePacker \<Rightarrow> Position list \<Rightarrow> bool" where
  "fits_loop p [] = True"
| "fits_loop p (corner # rest) =
     (let distance = sqrt ((pos_x corner)\<^sup>2 + (pos_y corner)\<^sup>2)
      in if distance > effective_radius p then False else fits_loop p rest)"

definition rectangle_fits_in_circle :: "RectanglePacker \<Rightarrow> Rectangle \<Rightarrow> bool" where
  "rectangle_fits_in_circle p rect = (let corners = get_corners rect in fits_loop p corners)"

subsection \<open>Validation and metrics\<close>

fun validate_row :: "RectanglePacker \<Rightarrow> Rectangle \<Rightarrow> Rectangle list \<Rightarrow> error + bool" where
  "validate_row p ri [] = Inr True"
| "validate_row p ri (rj # rest) =
     ebind (rectangles_overlap ri rj (tolerance p)) (\<lambda>ov.
       if ov then Inr False else validate_row p ri rest)"

fun validate_no_overlaps :: "RectanglePacker \<Rightarrow> Rectangle list \<Rightarrow> error + bool" where
  "validate_no_overlaps p [] = Inr True"
| "validate_no_overlaps p (ri # rest) =
     ebind (validate_row p ri rest) (\<lambda>ok.
       if \<not> ok then Inr False else validate_no_overlaps p rest)"

definition calculate_efficiency :: "RectanglePacker \<Rightarrow> PackingResult \<Rightarrow> PackingResult" where
  "calculate_efficiency p result =
     (case circle result of
        None \<Rightarrow> result
      | Some c \<Rightarrow>
          (let total = pi * (Circle.radius c)\<^sup>2;
               used = sum_list (map (\<lambda>_. rect_width p * rect_height p) (rectangles result));
               result1 = result\<lparr>total_area := total, used_area := used\<rparr>
           in if total > 0
              then result1\<lparr>efficiency := (used / total) * 100, waste := 100 - (used / total) * 100\<rparr>
              else result1\<lparr>efficiency := 0, waste := 100\<rparr>))"

subsection \<open>Placing one candidate\<close>

text \<open>
  The pattern \<open>if fits(new_rect): if not rectangle_overlaps_any(new_rect, filled_rects):
  filled_rects.append(new_rect)\<close> of the four edge fills.
\<close>

definition try_place :: "RectanglePacker \<Rightarrow> Rectangle \<Rightarrow> Rectangle list \<Rightarrow> error + Rectangle list" where
  "try_place p new_rect filled_rects =
     (if rectangle_fits_in_circle p new_rect then
        ebind (rectangle_overlaps_any new_rect filled_rects (tolerance p)) (\<lambda>ov.
          if \<not> ov then Inr (filled_rects @ [new_rect]) else Inr filled_rects)
      else Inr filled_rects)"

subsection \<open>Systematic gap fill\<close>

text \<open>The loop \<open>for rotation in [0, 90]\<close> at one scan point; it stops at the first placement.\<close>

fun try_orientations ::
  "RectanglePacker \<Rightarrow> real \<Rightarrow> real \<Rightarrow> real list \<Rightarrow> Rectangle list \<Rightarrow> error + Rectangle list" where
  "try_orientations p x y [] filled_rects = Inr filled_rects"
| "try_orientations p x y (rot # rest) filled_rects =
     (let rect = new_Rectangle (Position x y) (rect_width p) (rect_height p) rot
      in if rectangle_fits_in_circle p rect then
           ebind (rectangle_overlaps_any rect filled_rects (tolerance p)) (\<lambda>ov.
             if \<not> ov then Inr (filled_rects @ [rect])
             else try_orientations p x y rest filled_rects)
         else try_orientations p x y rest filled_rects)"

partial_function (option) gap_fill_x ::
  "RectanglePacker \<Rightarrow> real \<Rightarrow> real \<Rightarrow> real \<Rightarrow> Rectangle list \<Rightarrow> (error + Rectangle list) option" where
  "gap_fill_x p scan_step y cur_x filled_rects =
     (if cur_x \<le> radius p then
        (case try_orientations p cur_x y [0, 90] filled_rects of
           Inl e \<Rightarrow> Some (Inl e)
         | Inr filled' \<Rightarrow> gap_fill_x p scan_step y (cur_x + scan_step) filled')
      else Some (Inr filled_rects))"

partial_function (option) gap_fill_y ::
  "RectanglePacker \<Rightarrow> real \<Rightarrow> real \<Rightarrow> Rectangle list \<Rightarrow> (error + Rectangle list) option" where
  "gap_fill_y p scan_step y filled_rects =
     (if y \<le> radius p then
        (case gap_fill_x p scan_step y (- radius p) filled_rects of
           None \<Rightarrow> None
         | Some (Inl e) \<Rightarrow> Some (Inl e)
         | Some (Inr filled') \<Rightarrow> gap_fill_y p scan_step (y + scan_step) filled')
      else Some (Inr filled_rects))"

definition systematic_gap_fill :: "RectanglePacker \<Rightarrow> Rectangle list \<Rightarrow> (error + Rectangle list) option" where
  "systematic_gap_fill p placed_rectangles =
     (let filled_rects = placed_rectangles;
          scan_step = min (rect_width p) (rect_height p) / 2
      in gap_fill_y p scan_step (- radius p) filled_rects)"


subsection \<open>Strict grid placement\<close>

definition rbind :: "'a run \<Rightarrow> ('a \<Rightarrow> 'b run) \<Rightarrow> 'b run" where
  "rbind m f = (case m of None \<Rightarrow> None | Some (Inl e) \<Rightarrow> Some (Inl e) | Some (Inr v) \<Rightarrow> f v)"

text \<open>
  The bounds \<open>(min_x, max_x, min_y, max_y)\<close> of the accepted grid rectangles. The source
  starts them at \<open>(inf, -inf, inf, -inf)\<close>; the reals have no infinities, so \<open>None\<close> stands
  for this initial value, and \<open>min(inf, v) = v\<close>, \<open>max(-inf, v) = v\<close>.
\<close>

type_synonym bounds = "(real \<times> real \<times> real \<times> real) option"

definition update_bounds :: "bounds \<Rightarrow> real \<Rightarrow> real \<Rightarrow> real \<Rightarrow> real \<Rightarrow> bounds" where
  "update_bounds bnd x_lo x_hi y_lo y_hi =
     (case bnd of
        None \<Rightarrow> Some (x_lo, x_hi, y_lo, y_hi)
      | Some (min_x, max_x, min_y, max_y) \<Rightarrow>
          Some (min min_x x_lo, max max_x x_hi, min min_y y_lo, max max_y y_hi))"

text \<open>The body of the two grid loops, for row \<open>r\<close> and column \<open>c\<close>.\<close>

definition grid_cell ::
  "RectanglePacker \<Rightarrow> real \<Rightarrow> real \<Rightarrow> real \<Rightarrow> real \<Rightarrow> real \<Rightarrow> real \<Rightarrow> real \<Rightarrow> real \<Rightarrow> real \<Rightarrow>
   int \<Rightarrow> int \<Rightarrow> Rectangle list \<times> bounds \<Rightarrow> Rectangle list \<times> bounds" where
  "grid_cell p rot w h start_x start_y grid_step_x grid_step_y offset_x offset_y r c st =
     (let x = start_x + of_int c * grid_step_x + offset_x;
          y = start_y + of_int r * grid_step_y + offset_y;
          center_x = x + w / 2;
          center_y = y + h / 2;
          pos = Position center_x center_y;
          rect = new_Rectangle pos (rect_width p) (rect_height p) rot
      in if rectangle_fits_in_circle p rect then
           (fst st @ [rect],
            update_bounds (snd st) (center_x - w / 2) (center_x + w / 2)
              (center_y - h / 2) (center_y + h / 2))
         else st)"

definition base_grid ::
  "RectanglePacker \<Rightarrow> real \<Rightarrow> real \<Rightarrow> real \<Rightarrow> real \<Rightarrow> real \<Rightarrow> real \<Rightarrow> real \<Rightarrow> real \<Rightarrow> real \<Rightarrow>
   int \<Rightarrow> int \<Rightarrow> Rectangle list \<times> bounds" where
  "base_grid p rot w h start_x start_y grid_step_x grid_step_y offset_x offset_y rows cols =
     fold (\<lambda>r. fold (grid_cell p rot w h start_x start_y grid_step_x grid_step_y offset_x offset_y r)
                  (py_range 0 cols))
          (py_range 0 rows) ([], None)"

text \<open>
  The inner \<open>for k in range(k_start, k_end)\<close> of Fill Right and Fill Left (a column at
  \<open>curr_x\<close>), and of Fill Top and Fill Bottom (a row at \<open>curr_y\<close>).
\<close>

definition scan_y ::
  "RectanglePacker \<Rightarrow> real \<Rightarrow> real \<Rightarrow> real \<Rightarrow> real \<Rightarrow> real \<Rightarrow> Rectangle list \<Rightarrow> error + Rectangle list" where
  "scan_y p alt_rotation min_y ortho_h ortho_step_y curr_x filled_rects =
     (let start_scan_y = min_y + ortho_h / 2
      in ebind (py_div (- radius p - start_scan_y) ortho_step_y) (\<lambda>q1.
         let k_start = py_int q1 - 1
         in ebind (py_div (radius p - start_scan_y) ortho_step_y) (\<lambda>q2.
            let k_end = py_int q2 + 2
            in efold (\<lambda>k filled.
                  let curr_y = start_scan_y + of_int k * ortho_step_y;
                      new_rect = new_Rectangle (Position curr_x curr_y)
                                   (rect_width p) (rect_height p) alt_rotation
                  in try_place p new_rect filled)
                (py_range k_start k_end) filled_rects)))"

definition scan_x ::
  "RectanglePacker \<Rightarrow> real \<Rightarrow> real \<Rightarrow> real \<Rightarrow> real \<Rightarrow> real \<Rightarrow> Rectangle list \<Rightarrow> error + Rectangle list" where
  "scan_x p alt_rotation min_x ortho_w ortho_step_x curr_y filled_rects =
     (let start_scan_x = min_x + ortho_w / 2
      in ebind (py_div (- radius p - start_scan_x) ortho_step_x) (\<lambda>q1.
         let k_start = py_int q1 - 1
         in ebind (py_div (radius p - start_scan_x) ortho_step_x) (\<lambda>q2.
            let k_end = py_int q2 + 2
            in efold (\<lambda>k filled.
                  let curr_x = start_scan_x + of_int k * ortho_step_x;
                      new_rect = new_Rectangle (Position curr_x curr_y)
                                   (rect_width p) (rect_height p) alt_rotation
                  in try_place p new_rect filled)
                (py_range k_start k_end) filled_rects)))"

text \<open>
  The outer \<open>while\<close> of an edge fill: \<open>while cond(cur): body; cur = advance(cur)\<close>.
\<close>

partial_function (option) fill_while ::
  "(real \<Rightarrow> bool) \<Rightarrow> (real \<Rightarrow> Rectangle list \<Rightarrow> error + Rectangle list) \<Rightarrow> (real \<Rightarrow> real) \<Rightarrow>
   real \<Rightarrow> Rectangle list \<Rightarrow> (error + Rectangle list) option" where
  "fill_while cond body advance cur filled_rects =
     (if cond cur then
        (case body cur filled_rects of
           Inl e \<Rightarrow> Some (Inl e)
         | Inr filled' \<Rightarrow> fill_while cond body advance (advance cur) filled')
      else Some (Inr filled_rects))"

text \<open>
  The \<open>while\<close> of a center fill: it stacks rectangles at \<open>grid_center_x\<close> and breaks at the
  first candidate that does not fit or collides.
\<close>

partial_function (option) center_while ::
  "RectanglePacker \<Rightarrow> (real \<Rightarrow> bool) \<Rightarrow> (real \<Rightarrow> Rectangle) \<Rightarrow> (real \<Rightarrow> real) \<Rightarrow>
   real \<Rightarrow> Rectangle list \<Rightarrow> (error + Rectangle list) option" where
  "center_while p cond mk advance curr_y filled_rects =
     (if cond curr_y then
        (let new_rect = mk curr_y
         in if rectangle_fits_in_circle p new_rect then
              (case rectangle_overlaps_any new_rect filled_rects (tolerance p) of
                 Inl e \<Rightarrow> Some (Inl e)
               | Inr ov \<Rightarrow>
                   if \<not> ov then center_while p cond mk advance (advance curr_y) (filled_rects @ [new_rect])
                   else Some (Inr filled_rects))
            else Some (Inr filled_rects))
      else Some (Inr filled_rects))"

text \<open>
  The fills of one offset, entered when the base grid is not empty, and the two updates of
  \<open>(best_rects, max_count)\<close>. After the first update \<open>best_rects\<close> is the same list object
  as \<open>filled_rects\<close>, so the appends of the center fills reach it too: \<open>aliased\<close> records
  that.
\<close>

definition fill_stage ::
  "RectanglePacker \<Rightarrow> real \<Rightarrow> real \<Rightarrow> real \<Rightarrow> real \<Rightarrow> real \<Rightarrow> real \<Rightarrow> real \<Rightarrow> real \<Rightarrow> real \<Rightarrow> real \<Rightarrow>
   real \<times> real \<times> real \<times> real \<Rightarrow> Rectangle list \<Rightarrow> Rectangle list \<times> nat \<Rightarrow>
   (Rectangle list \<times> nat) run" where
  "fill_stage p rot alt_rotation w h ortho_w ortho_h grid_step_x grid_step_y
       ortho_step_x ortho_step_y bnd current_rects best =
     (case bnd of (min_x, max_x, min_y, max_y) \<Rightarrow>
      let filled_rects = current_rects;
          best_rects = fst best;
          max_count = snd best
      in
      rbind (fill_while (\<lambda>curr_x. curr_x - ortho_w / 2 < radius p)
               (scan_y p alt_rotation min_y ortho_h ortho_step_y)
               (\<lambda>curr_x. curr_x + ortho_step_x)
               (max_x + tolerance p + ortho_w / 2) filled_rects) (\<lambda>filled_rects.
      rbind (fill_while (\<lambda>curr_x. curr_x + ortho_w / 2 > - radius p)
               (scan_y p alt_rotation min_y ortho_h ortho_step_y)
               (\<lambda>curr_x. curr_x - ortho_step_x)
               (min_x - tolerance p - ortho_w / 2) filled_rects) (\<lambda>filled_rects.
      rbind (fill_while (\<lambda>curr_y. curr_y - ortho_h / 2 < radius p)
               (scan_x p alt_rotation min_x ortho_w ortho_step_x)
               (\<lambda>curr_y. curr_y + ortho_step_y)
               (max_y + tolerance p + ortho_h / 2) filled_rects) (\<lambda>filled_rects.
      rbind (fill_while (\<lambda>curr_y. curr_y + ortho_h / 2 > - radius p)
               (scan_x p alt_rotation min_x ortho_w ortho_step_x)
               (\<lambda>curr_y. curr_y - ortho_step_y)
               (min_y - tolerance p - ortho_h / 2) filled_rects) (\<lambda>filled_rects.
      let aliased = (length filled_rects > max_count);
          max_count = (if aliased then length filled_rects else max_count);
          best_rects = (if aliased then filled_rects else best_rects);
          grid_center_x = (min_x + max_x) / 2;
          mk = (\<lambda>curr_y. new_Rectangle (Position grid_center_x curr_y)
                            (rect_width p) (rect_height p) rot)
      in
      rbind (center_while p (\<lambda>curr_y. curr_y + h / 2 \<le> radius p) mk
               (\<lambda>curr_y. curr_y + grid_step_y)
               (max_y + tolerance p + h / 2) filled_rects) (\<lambda>filled_rects.
      rbind (center_while p (\<lambda>curr_y. curr_y - h / 2 \<ge> - radius p) mk
               (\<lambda>curr_y. curr_y - grid_step_y)
               (min_y - tolerance p - h / 2) filled_rects) (\<lambda>filled_rects.
      let best_rects = (if aliased then filled_rects else best_rects)
      in if length filled_rects > max_count
         then Some (Inr (filled_rects, length filled_rects))
         else Some (Inr (best_rects, max_count)))))))))"


text \<open>
  The body of the offset loops for one pair \<open>(i, j)\<close>. The fills are entered when
  \<open>current_rects\<close> is not empty; the bounds are then no longer at their initial value.
\<close>

definition offset_trial ::
  "RectanglePacker \<Rightarrow> real \<Rightarrow> real \<Rightarrow> real \<Rightarrow> real \<Rightarrow> real \<Rightarrow> real \<Rightarrow> real \<Rightarrow> real \<Rightarrow> real \<Rightarrow> real \<Rightarrow>
   int \<Rightarrow> int \<Rightarrow> int \<Rightarrow> int \<Rightarrow> Rectangle list \<times> nat \<Rightarrow> (Rectangle list \<times> nat) run" where
  "offset_trial p rot alt_rotation w h ortho_w ortho_h grid_step_x grid_step_y
       ortho_step_x ortho_step_y steps_x steps_y i j best =
     (let offset_x = (grid_step_x / of_int steps_x) * of_int i;
          offset_y = (grid_step_y / of_int steps_y) * of_int j;
          start_x = - radius p - w;
          start_y = - radius p - h
      in case py_div (circle_diameter p + 2 * w) grid_step_x of
           Inl e \<Rightarrow> Some (Inl e)
         | Inr qx \<Rightarrow>
             (let cols = py_int qx + 2
              in case py_div (circle_diameter p + 2 * h) grid_step_y of
                   Inl e \<Rightarrow> Some (Inl e)
                 | Inr qy \<Rightarrow>
                     (let rows = py_int qy + 2;
                          grid = base_grid p rot w h start_x start_y grid_step_x grid_step_y
                                   offset_x offset_y rows cols;
                          current_rects = fst grid
                      in if current_rects \<noteq> [] then
                           (case snd grid of
                              None \<Rightarrow> Some (Inr best)
                            | Some bnd \<Rightarrow>
                                fill_stage p rot alt_rotation w h ortho_w ortho_h
                                  grid_step_x grid_step_y ortho_step_x ortho_step_y
                                  bnd current_rects best)
                         else Some (Inr best))))"

text \<open>Python's \<open>str\<close> of an integer, for the strategy label.\<close>

fun str_nat :: "nat \<Rightarrow> string" where
  "str_nat n = (if n < 10 then [char_of (48 + n)]
                else str_nat (n div 10) @ [char_of (48 + n mod 10)])"

declare str_nat.simps [simp del]

definition str_int :: "int \<Rightarrow> string" where
  "str_int i = (if i < 0 then CHR ''-'' # str_nat (nat (- i)) else str_nat (nat i))"

text \<open>The degree sign of the label, as its two bytes in UTF-8.\<close>

definition degree_sign :: string where
  "degree_sign = [char_of (194 :: nat), char_of (176 :: nat)]"

definition strict_grid_packing :: "RectanglePacker \<Rightarrow> int \<Rightarrow> PackingResult run" where
  "strict_grid_packing p rot =
     (let result = new_PackingResult
            \<lparr>circle := Some \<lparr>Circle.radius = radius p, position = Position 0 0\<rparr>,
             strategy := ''Strict Grid (Rot: '' @ str_int rot @ degree_sign @ '' + Fill)''\<rparr>;
          w = (if rot = 90 then rect_height p else rect_width p);
          h = (if rot = 90 then rect_width p else rect_height p);
          alt_rotation = (if rot = 90 then 0 else 90);
          ortho_w = h;
          ortho_h = w;
          grid_step_x = w + tolerance p;
          grid_step_y = h + tolerance p;
          ortho_step_x = ortho_w + tolerance p;
          ortho_step_y = ortho_h + tolerance p;
          steps_x = 10;
          steps_y = 10
      in rbind (rfold (\<lambda>i. rfold (\<lambda>j.
                   offset_trial p (of_int rot) alt_rotation w h ortho_w ortho_h
                     grid_step_x grid_step_y ortho_step_x ortho_step_y steps_x steps_y i j)
                   (py_range 0 steps_y))
                 (py_range 0 steps_x) ([], 0)) (\<lambda>best.
         rbind (if fst best \<noteq> [] then
                  rbind (systematic_gap_fill p (fst best)) (\<lambda>best_rects.
                    Some (Inr (best_rects, length best_rects)))
                else Some (Inr best)) (\<lambda>best.
         Some (Inr (result\<lparr>rectangles := fst best, count := snd best\<rparr>)))))"

subsection \<open>The optimizer\<close>

text \<open>Python's \<open>max(results, key=lambda r: r.count)\<close>: the first result of maximal count.\<close>

fun py_max_key :: "('a \<Rightarrow> nat) \<Rightarrow> 'a list \<Rightarrow> error + 'a" where
  "py_max_key key [] = Inl ValueError"
| "py_max_key key (v # vs) = Inr (fold (\<lambda>c best. if key c > key best then c else best) vs v)"

definition find_optimal_packing :: "RectanglePacker \<Rightarrow> PackingResult run" where
  "find_optimal_packing p =
     rbind (strict_grid_packing p 0) (\<lambda>r0.
     rbind (strict_grid_packing p 90) (\<lambda>r90.
       let results = [r0, r90]
       in Some (
         ebind (efold (\<lambda>result valid_results.
                   ebind (validate_no_overlaps p (rectangles result)) (\<lambda>ok.
                     Inr (if ok then valid_results @ [result] else valid_results)))
                 results []) (\<lambda>valid_results.
         ebind (if valid_results \<noteq> [] then py_max_key count valid_results
                else if results \<noteq> [] then py_max_key count results
                else Inr new_PackingResult) (\<lambda>best.
         Inr (calculate_efficiency p best))))))"

subsection \<open>Notions used to state and prove the properties\<close>

definition half_x :: "Rectangle \<Rightarrow> real" where
  "half_x r = (if rotation r = 90 then height r / 2 else width r / 2)"

definition half_y :: "Rectangle \<Rightarrow> real" where
  "half_y r = (if rotation r = 90 then width r / 2 else height r / 2)"

definition x_span :: "Rectangle \<Rightarrow> real \<times> real" where
  "x_span r = (pos_x (rect_position r) - half_x r, pos_x (rect_position r) + half_x r)"

definition y_span :: "Rectangle \<Rightarrow> real \<times> real" where
  "y_span r = (pos_y (rect_position r) - half_y r, pos_y (rect_position r) + half_y r)"

definition upright :: "Rectangle \<Rightarrow> bool" where
  "upright r = ((rotation r = 0 \<or> rotation r = 90) \<and> 0 < width r \<and> 0 < height r)"

definition placeable :: "RectanglePacker \<Rightarrow> Rectangle \<Rightarrow> bool" where
  "placeable p r =
     (width r = rect_width p \<and> height r = rect_height p \<and> (rotation r = 0 \<or> rotation r = 90))"

definition grows :: "RectanglePacker \<Rightarrow> (Rectangle list \<Rightarrow> bool) \<Rightarrow> bool" where
  "grows p I =
     (\<forall>f r. I f \<longrightarrow> rectangle_fits_in_circle p r \<longrightarrow> placeable p r \<longrightarrow> I (f @ [r]))"

text \<open>The pair \<open>(best_rects, max_count)\<close> of the offset loops.\<close>

definition best_ok :: "(Rectangle list \<Rightarrow> bool) \<Rightarrow> Rectangle list \<times> nat \<Rightarrow> bool" where
  "best_ok I best = (I (fst best) \<and> snd best = length (fst best))"

text \<open>
  Whether the corner of an upright box farthest from the origin, at
  \<open>(|cx| + hx, |cy| + hy)\<close>, lies within the distance \<open>e\<close> of the origin.
\<close>

definition far_fits :: "real \<Rightarrow> real \<Rightarrow> real \<Rightarrow> real \<Rightarrow> real \<Rightarrow> bool" where
  "far_fits e cx cy hx hy =
     (0 \<le> e \<and> (\<bar>cx\<bar> + hx) * (\<bar>cx\<bar> + hx) + (\<bar>cy\<bar> + hy) * (\<bar>cy\<bar> + hy) \<le> e * e)"

subsection \<open>A configuration with a large clearance\<close>

text \<open>
  A circle of diameter 110, squares of side 20, a clearance of 60 and no safe zone; the two
  squares that the engine places for it, for a base rotation \<open>rot\<close>; the result of the grid
  strategy for that rotation; and the result that the optimizer returns.
\<close>

definition pB :: RectanglePacker where "pB = new_RectanglePacker 110 20 20 60 0"

definition rect_B1 :: "real \<Rightarrow> Rectangle" where
  "rect_B1 rot = new_Rectangle (Position (- 41) (- 9)) 20 20 rot"

definition rect_B2 :: "real \<Rightarrow> Rectangle" where
  "rect_B2 rot = new_Rectangle (Position 39 (- 9)) 20 20 rot"

definition grid_B :: "int \<Rightarrow> PackingResult" where
  "grid_B rot =
     \<lparr>rectangles = [rect_B1 (of_int rot), rect_B2 (of_int rot)],
      circle = Some \<lparr>Circle.radius = 55, position = Position 0 0\<rparr>,
      count = 2,
      strategy = ''Strict Grid (Rot: '' @ str_int rot @ degree_sign @ '' + Fill)'',
      efficiency = 0, waste = 0, used_area = 0, total_area = 0\<rparr>"

definition result_B :: PackingResult where
  "result_B = grid_B 0
     \<lparr>total_area := pi * 55\<^sup>2, used_area := 800,
      efficiency := 800 / (pi * 55\<^sup>2) * 100, waste := 100 - 800 / (pi * 55\<^sup>2) * 100\<rparr>"

subsection \<open>Sample corner lists\<close>

text \<open>
  The unit square, and three unit squares that touch it in a corner, touch it along an edge
  and overlap it by a strip of width 0.01.
\<close>

definition sq_a :: "vec list" where "sq_a = [(0, 0), (1, 0), (1, 1), (0, 1)]"
definition sq_corner :: "vec list" where "sq_corner = [(1, 1), (2, 1), (2, 2), (1, 2)]"
definition sq_edge :: "vec list" where
  "sq_edge = [(1, 99 / 100), (2, 99 / 100), (2, 199 / 100), (1, 199 / 100)]"
definition sq_deep :: "vec list" where
  "sq_deep = [(99 / 100, 0), (199 / 100, 0), (199 / 100, 1), (99 / 100, 1)]"

section \<open>Properties\<close>

subsection \<open>The separating axis test\<close>

lemma projections_overlap_gap:
  "projections_overlap p1 p2 tol =
     (if tol < 1 / 1000000 then gap p1 p2 > 1 / 1000000 else gap p1 p2 > - tol - 1 / 1000000)"
  by (simp add: projections_overlap_def gap_def Let_def)

lemma py_min_nonempty: "vs \<noteq> [] \<Longrightarrow> \<exists>m. py_min vs = Inr m"
  by (cases vs) auto

lemma py_max_nonempty: "vs \<noteq> [] \<Longrightarrow> \<exists>m. py_max vs = Inr m"
  by (cases vs) auto

lemma project_polygon_nonempty:
  "vertices \<noteq> [] \<Longrightarrow> \<exists>p. project_polygon axis vertices = Inr p"
  using py_min_nonempty [of "map (dot_product axis) vertices"]
        py_max_nonempty [of "map (dot_product axis) vertices"]
  by (auto simp: project_polygon_def ebind_def Let_def)

lemma edge_axis_ok:
  "4 \<le> length c \<Longrightarrow> i < 4 \<Longrightarrow>
   edge_axis c i = Inr (get_edge_normal (c ! i) (c ! ((i + 1) mod 4)))"
  by (simp add: edge_axis_def py_nth_def ebind_def)

lemma axis_overlap_ok:
  "c1 \<noteq> [] \<Longrightarrow> c2 \<noteq> [] \<Longrightarrow>
   axis_overlap axis c1 c2 tol =
     Inr (projections_overlap (projr (project_polygon axis c1)) (projr (project_polygon axis c2)) tol)"
  using project_polygon_nonempty [of c1 axis] project_polygon_nonempty [of c2 axis]
  by (auto simp: axis_overlap_def ebind_def)

lemma sat_loop_char:
  assumes "4 \<le> length c1" "4 \<le> length c2" "\<forall>i\<in>set idx. i < 4"
  shows "sat_loop c1 c2 tol idx =
     Inr (\<forall>i\<in>set idx.
        axis_ok c1 c2 tol (get_edge_normal (c1 ! i) (c1 ! ((i + 1) mod 4))) \<and>
        axis_ok c1 c2 tol (get_edge_normal (c2 ! i) (c2 ! ((i + 1) mod 4))))"
  using assms
proof (induction idx)
  case Nil
  then show ?case by simp
next
  case (Cons i idx)
  have ne: "c1 \<noteq> []" "c2 \<noteq> []" using Cons.prems by auto
  have i4: "i < 4" using Cons.prems by simp
  show ?case
    using Cons.IH Cons.prems
    by (auto simp: edge_axis_ok [OF _ i4] axis_overlap_ok [OF ne] ebind_def axis_ok_def)
qed

lemma sat_char:
  assumes "4 \<le> length c1" "4 \<le> length c2"
  shows "sat_rectangles_collide c1 c2 tol = Inr (\<forall>ax\<in>set (tested_axes c1 c2). axis_ok c1 c2 tol ax)"
  unfolding sat_rectangles_collide_def
  by (subst sat_loop_char [OF assms]) (auto simp: tested_axes_def)


lemma projections_overlap_sym: "projections_overlap p1 p2 tol = projections_overlap p2 p1 tol"
  by (simp add: projections_overlap_def Let_def min.commute max.commute)

lemma projections_overlap_mono:
  "t1 \<le> t2 \<Longrightarrow> projections_overlap p1 p2 t1 \<Longrightarrow> projections_overlap p1 p2 t2"
  by (auto simp: projections_overlap_def Let_def split: if_splits)

lemma axis_overlap_mono:
  "t1 \<le> t2 \<Longrightarrow> axis_overlap ax c1 c2 t1 = Inr True \<Longrightarrow> axis_overlap ax c1 c2 t2 = Inr True"
  by (auto simp: axis_overlap_def ebind_def split: sum.splits dest: projections_overlap_mono)

lemma sat_loop_mono:
  "t1 \<le> t2 \<Longrightarrow> sat_loop c1 c2 t1 idx = Inr True \<Longrightarrow> sat_loop c1 c2 t2 idx = Inr True"
proof (induction idx)
  case Nil
  then show ?case by simp
next
  case (Cons i idx)
  from Cons.prems(2) obtain a1 a2 where
    a1: "edge_axis c1 i = Inr a1" and o1: "axis_overlap a1 c1 c2 t1 = Inr True" and
    a2: "edge_axis c2 i = Inr a2" and o2: "axis_overlap a2 c1 c2 t1 = Inr True" and
    rest: "sat_loop c1 c2 t1 idx = Inr True"
    by (auto simp: ebind_def split: sum.splits if_splits)
  from Cons.IH [OF Cons.prems(1) rest] axis_overlap_mono [OF Cons.prems(1) o1]
       axis_overlap_mono [OF Cons.prems(1) o2] a1 a2
  show ?case by (simp add: ebind_def)
qed

lemma tested_axes_sym: "set (tested_axes c1 c2) = set (tested_axes c2 c1)"
  by (auto simp: tested_axes_def)

lemma axis_ok_sym: "axis_ok c1 c2 tol ax = axis_ok c2 c1 tol ax"
  unfolding axis_ok_def by (rule projections_overlap_sym)

lemma sat_sym:
  assumes "4 \<le> length c1" "4 \<le> length c2"
  shows "sat_rectangles_collide c1 c2 tol = sat_rectangles_collide c2 c1 tol"
  by (simp add: sat_char [OF assms] sat_char [OF assms(2) assms(1)] tested_axes_sym [of c1 c2]
      axis_ok_sym [of c1 c2])

lemma length_corner_tuples: "length (corner_tuples r) = 4"
  by (simp add: corner_tuples_def get_corners_def Let_def)

lemma rectangles_overlap_sym: "rectangles_overlap A B tol = rectangles_overlap B A tol"
  unfolding rectangles_overlap_def Let_def
  by (rule sat_sym) (simp_all add: length_corner_tuples)

lemma rectangles_overlap_total: "\<exists>b. rectangles_overlap A B tol = Inr b"
  by (simp add: rectangles_overlap_def sat_char length_corner_tuples)

subsection \<open>Symmetry of the pairwise test\<close>


lemma project_polygon_4:
  "project_polygon ax [a, b, c, d] =
     Inr (min (min (min (dot_product ax a) (dot_product ax b)) (dot_product ax c)) (dot_product ax d),
          max (max (max (dot_product ax a) (dot_product ax b)) (dot_product ax c)) (dot_product ax d))"
  by (simp add: project_polygon_def ebind_def Let_def min.commute max.commute)

lemma axis_gap_ok:
  "axis_gap ax c1 c2 = Some g \<Longrightarrow>
   projections_overlap (projr (project_polygon ax c1)) (projr (project_polygon ax c2)) tol =
     (if tol < 1 / 1000000 then g > 1 / 1000000 else g > - tol - 1 / 1000000)"
  by (auto simp: axis_gap_def projections_overlap_gap split: sum.splits)

lemma tested_axes_sq_edge:
  "tested_axes sq_a sq_edge = [(0, 1), (0, 1), (- 1, 0), (- 1, 0), (0, - 1), (0, - 1), (1, 0), (1, 0)]"
  by (simp add: sq_a_def sq_edge_def tested_axes_def upt_rec get_edge_normal_def normalize_vector_def Let_def)

lemma tested_axes_sq_corner:
  "tested_axes sq_a sq_corner = [(0, 1), (0, 1), (- 1, 0), (- 1, 0), (0, - 1), (0, - 1), (1, 0), (1, 0)]"
  by (simp add: sq_a_def sq_corner_def tested_axes_def upt_rec get_edge_normal_def normalize_vector_def Let_def)

lemma tested_axes_sq_deep:
  "tested_axes sq_a sq_deep = [(0, 1), (0, 1), (- 1, 0), (- 1, 0), (0, - 1), (0, - 1), (1, 0), (1, 0)]"
  by (simp add: sq_a_def sq_deep_def tested_axes_def upt_rec get_edge_normal_def normalize_vector_def Let_def)

lemma axis_gap_4:
  "axis_gap ax [a, b, c, d] [e, f, g, h] =
     Some (gap (projr (project_polygon ax [a, b, c, d])) (projr (project_polygon ax [e, f, g, h])))"
  by (simp add: axis_gap_def project_polygon_4)

lemma gaps_sq_edge:
  "axis_gap (0, 1) sq_a sq_edge = Some (1 / 100)" "axis_gap (- 1, 0) sq_a sq_edge = Some 0"
  "axis_gap (0, - 1) sq_a sq_edge = Some (1 / 100)" "axis_gap (1, 0) sq_a sq_edge = Some 0"
  by (simp_all add: sq_a_def sq_edge_def axis_gap_4 project_polygon_4 dot_product_def gap_def)

lemma gaps_sq_corner:
  "axis_gap (0, 1) sq_a sq_corner = Some 0" "axis_gap (- 1, 0) sq_a sq_corner = Some 0"
  "axis_gap (0, - 1) sq_a sq_corner = Some 0" "axis_gap (1, 0) sq_a sq_corner = Some 0"
  by (simp_all add: sq_a_def sq_corner_def axis_gap_4 project_polygon_4 dot_product_def gap_def)

lemma gaps_sq_deep:
  "axis_gap (0, 1) sq_a sq_deep = Some 1" "axis_gap (- 1, 0) sq_a sq_deep = Some (1 / 100)"
  "axis_gap (0, - 1) sq_a sq_deep = Some 1" "axis_gap (1, 0) sq_a sq_deep = Some (1 / 100)"
  by (simp_all add: sq_a_def sq_deep_def axis_gap_4 project_polygon_4 dot_product_def gap_def)

lemma sat_char_gap:
  assumes "4 \<le> length c1" "4 \<le> length c2"
    and "\<forall>ax\<in>set (tested_axes c1 c2). axis_gap ax c1 c2 \<noteq> None"
  shows "sat_rectangles_collide c1 c2 tol =
     Inr (\<forall>ax\<in>set (tested_axes c1 c2).
        (if tol < 1 / 1000000 then the (axis_gap ax c1 c2) > 1 / 1000000
         else the (axis_gap ax c1 c2) > - tol - 1 / 1000000))"
proof -
  have "axis_ok c1 c2 tol ax =
      (if tol < 1 / 1000000 then the (axis_gap ax c1 c2) > 1 / 1000000
         else the (axis_gap ax c1 c2) > - tol - 1 / 1000000)"
    if "ax \<in> set (tested_axes c1 c2)" for ax
  proof -
    from assms(3) that obtain g where g: "axis_gap ax c1 c2 = Some g" by auto
    show ?thesis unfolding axis_ok_def by (simp add: axis_gap_ok [OF g] g)
  qed
  then show ?thesis by (simp add: sat_char [OF assms(1,2)])
qed

subsection \<open>The overlap test of two projections\<close>

text \<open>
  C2: \<open>projections_overlap\<close> computes \<open>gap = min(max1, max2) - max(min1, min2)\<close> and, with
  \<open>epsilon = 1e-6\<close>, returns true exactly when \<open>gap > epsilon\<close> if the tolerance is below
  \<open>epsilon\<close>, and exactly when \<open>gap > - tolerance - epsilon\<close> otherwise; in particular two
  projections with \<open>gap = 0\<close> are not flagged as overlapping at tolerance 0.
\<close>

theorem projections_overlap_spec:
  "gap proj1 proj2 = min (snd proj1) (snd proj2) - max (fst proj1) (fst proj2) \<and>
   projections_overlap proj1 proj2 tol =
     (if tol < 1 / 1000000 then gap proj1 proj2 > 1 / 1000000
      else gap proj1 proj2 > - tol - 1 / 1000000) \<and>
   (gap proj1 proj2 = 0 \<longrightarrow> \<not> projections_overlap proj1 proj2 0)"
  by (simp add: projections_overlap_def gap_def Let_def)

theorem projections_overlap_spec_witness:
  "gap (0, 1) (1, 2) = 0 \<and> \<not> projections_overlap (0, 1) (1, 2) 0"
  using projections_overlap_spec [of "(0, 1)" "(1, 2)" 0] by (simp add: gap_def)

subsection \<open>Touching and overlapping corner lists at tolerance 0\<close>

text \<open>
  C4, as amended: at tolerance 0, \<open>sat_rectangles_collide\<close> returns false for two corner
  lists whose projections have gap 0 on every tested axis, and it returns true when some
  tested axis has gap 0.01 and every tested axis has a gap above \<open>epsilon = 1e-6\<close>.
\<close>

theorem sat_touch_boundary:
  assumes "4 \<le> length c1" and "4 \<le> length c2"
  shows "((\<forall>ax\<in>set (tested_axes c1 c2). axis_gap ax c1 c2 = Some 0) \<longrightarrow>
            sat_rectangles_collide c1 c2 0 = Inr False) \<and>
         ((\<exists>ax\<in>set (tested_axes c1 c2). axis_gap ax c1 c2 = Some (1 / 100)) \<and>
          (\<forall>ax\<in>set (tested_axes c1 c2). \<exists>g. axis_gap ax c1 c2 = Some g \<and> g > 1 / 1000000) \<longrightarrow>
            sat_rectangles_collide c1 c2 0 = Inr True)"
proof (intro conjI impI)
  assume a: "\<forall>ax\<in>set (tested_axes c1 c2). axis_gap ax c1 c2 = Some 0"
  have ne: "tested_axes c1 c2 \<noteq> []" by (simp add: tested_axes_def upt_rec)
  then obtain ax where "ax \<in> set (tested_axes c1 c2)" using hd_in_set by blast
  note ax = this
  from a have nn: "\<forall>ax\<in>set (tested_axes c1 c2). axis_gap ax c1 c2 \<noteq> None"
    by (simp del: not_None_eq)
  from a ax have "the (axis_gap ax c1 c2) = 0" by simp
  with ax have "\<exists>ax\<in>set (tested_axes c1 c2). \<not> 1 / 1000000 < the (axis_gap ax c1 c2)"
    by (intro bexI [of _ ax]) simp_all
  then show "sat_rectangles_collide c1 c2 0 = Inr False"
    by (simp add: sat_char_gap [OF assms nn])
next
  assume b: "(\<exists>ax\<in>set (tested_axes c1 c2). axis_gap ax c1 c2 = Some (1 / 100)) \<and>
          (\<forall>ax\<in>set (tested_axes c1 c2). \<exists>g. axis_gap ax c1 c2 = Some g \<and> g > 1 / 1000000)"
  then have "\<forall>ax\<in>set (tested_axes c1 c2). axis_gap ax c1 c2 \<noteq> None" by auto
  from sat_char_gap [OF assms this] b show "sat_rectangles_collide c1 c2 0 = Inr True"
    by auto
qed

theorem sat_touch_boundary_witness:
  "axis_gap (0, 1) sq_a sq_corner = Some 0 \<and> axis_gap (1, 0) sq_a sq_corner = Some 0 \<and>
   sat_rectangles_collide sq_a sq_corner 0 = Inr False \<and>
   axis_gap (1, 0) sq_a sq_deep = Some (1 / 100) \<and> axis_gap (0, 1) sq_a sq_deep = Some 1 \<and>
   sat_rectangles_collide sq_a sq_deep 0 = Inr True"
proof -
  have l: "4 \<le> length sq_a" "4 \<le> length sq_corner" "4 \<le> length sq_deep"
    by (simp_all add: sq_a_def sq_corner_def sq_deep_def)
  have "\<forall>ax\<in>set (tested_axes sq_a sq_corner). axis_gap ax sq_a sq_corner = Some 0"
    by (simp add: tested_axes_sq_corner gaps_sq_corner)
  with sat_touch_boundary [OF l(1) l(2)]
  have 1: "sat_rectangles_collide sq_a sq_corner 0 = Inr False" by blast
  have "\<exists>ax\<in>set (tested_axes sq_a sq_deep). axis_gap ax sq_a sq_deep = Some (1 / 100)"
    by (simp add: tested_axes_sq_deep gaps_sq_deep)
  moreover have "\<forall>ax\<in>set (tested_axes sq_a sq_deep). \<exists>g. axis_gap ax sq_a sq_deep = Some g \<and> g > 1 / 1000000"
  proof
    fix ax assume "ax \<in> set (tested_axes sq_a sq_deep)"
    then consider "ax = (0, 1)" | "ax = (- 1, 0)" | "ax = (0, - 1)" | "ax = (1, 0)"
      by (auto simp: tested_axes_sq_deep)
    then show "\<exists>g. axis_gap ax sq_a sq_deep = Some g \<and> g > 1 / 1000000"
    proof cases
      case 1 then show ?thesis by (intro exI [of _ 1]) (simp add: gaps_sq_deep)
    next
      case 2 then show ?thesis by (intro exI [of _ "1 / 100"]) (simp add: gaps_sq_deep)
    next
      case 3 then show ?thesis by (intro exI [of _ 1]) (simp add: gaps_sq_deep)
    next
      case 4 then show ?thesis by (intro exI [of _ "1 / 100"]) (simp add: gaps_sq_deep)
    qed
  qed
  ultimately have 2: "sat_rectangles_collide sq_a sq_deep 0 = Inr True"
    using sat_touch_boundary [OF l(1) l(3)] by blast
  from 1 2 show ?thesis by (simp add: gaps_sq_corner gaps_sq_deep)
qed

text \<open>
  The claim as it is written asks only for a gap of at least 0 on the other axes. The unit
  square and a unit square that shares a piece of an edge with it have gap 0.01 on the
  vertical axes and gap 0 on the horizontal ones, and they are not reported as colliding.
\<close>

theorem sat_touch_boundary_counterexample:
  "tested_axes sq_a sq_edge =
     [(0, 1), (0, 1), (- 1, 0), (- 1, 0), (0, - 1), (0, - 1), (1, 0), (1, 0)] \<and>
   axis_gap (0, 1) sq_a sq_edge = Some (1 / 100) \<and>
   axis_gap (- 1, 0) sq_a sq_edge = Some 0 \<and>
   axis_gap (0, - 1) sq_a sq_edge = Some (1 / 100) \<and>
   axis_gap (1, 0) sq_a sq_edge = Some 0 \<and>
   sat_rectangles_collide sq_a sq_edge 0 = Inr False"
proof -
  have l: "4 \<le> length sq_a" "4 \<le> length sq_edge"
    by (simp_all add: sq_a_def sq_edge_def)
  have "\<forall>ax\<in>set (tested_axes sq_a sq_edge). axis_gap ax sq_a sq_edge \<noteq> None"
    by (simp add: tested_axes_sq_edge gaps_sq_edge del: not_None_eq)
  from sat_char_gap [OF l this, of 0]
  have "sat_rectangles_collide sq_a sq_edge 0 = Inr False"
    by (simp add: tested_axes_sq_edge gaps_sq_edge)
  then show ?thesis by (simp add: tested_axes_sq_edge gaps_sq_edge)
qed

subsection \<open>Monotonicity in the tolerance\<close>

text \<open>
  C10: for tolerances \<open>0 \<le> t1 \<le> t2\<close>, two projections that overlap under \<open>t1\<close> overlap
  under \<open>t2\<close>, and two corner lists that \<open>sat_rectangles_collide\<close> reports as colliding
  under \<open>t1\<close> are reported as colliding under \<open>t2\<close>.
\<close>

theorem collision_monotone_in_tolerance:
  assumes "0 \<le> t1" and "t1 \<le> t2"
  shows "(projections_overlap proj1 proj2 t1 \<longrightarrow> projections_overlap proj1 proj2 t2) \<and>
         (sat_rectangles_collide c1 c2 t1 = Inr True \<longrightarrow> sat_rectangles_collide c1 c2 t2 = Inr True)"
  using projections_overlap_mono [OF assms(2)] sat_loop_mono [OF assms(2)]
  by (simp add: sat_rectangles_collide_def)

theorem collision_monotone_in_tolerance_witness:
  "projections_overlap (0, 2) (1, 3) 0 \<and> projections_overlap (0, 2) (1, 3) 1 \<and>
   sat_rectangles_collide sq_a sq_deep 0 = Inr True \<and>
   sat_rectangles_collide sq_a sq_deep 1 = Inr True"
proof -
  have l: "4 \<le> length sq_a" "4 \<le> length sq_deep"
    by (simp_all add: sq_a_def sq_deep_def)
  have g: "\<forall>ax\<in>set (tested_axes sq_a sq_deep). axis_gap ax sq_a sq_deep \<noteq> None"
    by (simp add: tested_axes_sq_deep gaps_sq_deep del: not_None_eq)
  have h1: "projections_overlap (0, 2) (1, 3) 0" by (simp add: projections_overlap_def)
  have h2: "sat_rectangles_collide sq_a sq_deep 0 = Inr True"
    by (simp add: sat_char_gap [OF l g] tested_axes_sq_deep gaps_sq_deep)
  from collision_monotone_in_tolerance [of 0 1 "(0, 2)" "(1, 3)" sq_a sq_deep] h1 h2
  show ?thesis by simp
qed

subsection \<open>Corners and the overlap test of upright rectangles\<close>

lemma radians_0: "radians 0 = 0" by (simp add: radians_def)
lemma radians_90: "radians 90 = pi / 2" by (simp add: radians_def)

lemma get_corners_0:
  "rotation r = 0 \<Longrightarrow> get_corners r =
     [Position (pos_x (rect_position r) - width r / 2) (pos_y (rect_position r) - height r / 2),
      Position (pos_x (rect_position r) + width r / 2) (pos_y (rect_position r) - height r / 2),
      Position (pos_x (rect_position r) + width r / 2) (pos_y (rect_position r) + height r / 2),
      Position (pos_x (rect_position r) - width r / 2) (pos_y (rect_position r) + height r / 2)]"
  by (simp add: get_corners_def rotate_local_def radians_0 Let_def)

lemma get_corners_90:
  "rotation r = 90 \<Longrightarrow> get_corners r =
     [Position (pos_x (rect_position r) + height r / 2) (pos_y (rect_position r) - width r / 2),
      Position (pos_x (rect_position r) + height r / 2) (pos_y (rect_position r) + width r / 2),
      Position (pos_x (rect_position r) - height r / 2) (pos_y (rect_position r) + width r / 2),
      Position (pos_x (rect_position r) - height r / 2) (pos_y (rect_position r) - width r / 2)]"
  by (simp add: get_corners_def rotate_local_def radians_90 Let_def)

lemma fits_loop_iff:
  "fits_loop p cs = (\<forall>c\<in>set cs. sqrt ((pos_x c)\<^sup>2 + (pos_y c)\<^sup>2) \<le> effective_radius p)"
  by (induction cs) (auto simp: Let_def)

lemma fits_iff:
  "rectangle_fits_in_circle p r =
     (\<forall>c\<in>set (get_corners r). sqrt ((pos_x c)\<^sup>2 + (pos_y c)\<^sup>2) \<le> effective_radius p)"
  by (simp add: rectangle_fits_in_circle_def fits_loop_iff)

lemma sqrt_le_iff: "sqrt v \<le> e \<longleftrightarrow> 0 \<le> e \<and> v \<le> e\<^sup>2" if "0 \<le> v"
proof
  assume a: "sqrt v \<le> e"
  have "0 \<le> sqrt v" using that by simp
  with a have e: "0 \<le> e" by linarith
  from a have "(sqrt v)\<^sup>2 \<le> e\<^sup>2" using that by (intro power_mono) auto
  with e that show "0 \<le> e \<and> v \<le> e\<^sup>2" by simp
next
  assume "0 \<le> e \<and> v \<le> e\<^sup>2"
  then show "sqrt v \<le> e" using real_le_lsqrt that by (simp add: real_le_lsqrt)
qed

lemma corner_tuples_0:
  "rotation r = 0 \<Longrightarrow> corner_tuples r =
     [(fst (x_span r), fst (y_span r)), (snd (x_span r), fst (y_span r)),
      (snd (x_span r), snd (y_span r)), (fst (x_span r), snd (y_span r))]"
  by (simp add: corner_tuples_def get_corners_0 x_span_def y_span_def half_x_def half_y_def)

lemma corner_tuples_90:
  "rotation r = 90 \<Longrightarrow> corner_tuples r =
     [(snd (x_span r), fst (y_span r)), (snd (x_span r), snd (y_span r)),
      (fst (x_span r), snd (y_span r)), (fst (x_span r), fst (y_span r))]"
  by (simp add: corner_tuples_def get_corners_90 x_span_def y_span_def half_x_def half_y_def)

lemma span_le: "upright r \<Longrightarrow> fst (x_span r) < snd (x_span r) \<and> fst (y_span r) < snd (y_span r)"
  by (auto simp: upright_def x_span_def y_span_def half_x_def half_y_def)

lemma normalize_axis:
  "0 < a \<Longrightarrow> normalize_vector (0, a) = (0, 1)"
  "0 < a \<Longrightarrow> normalize_vector (a, 0) = (1, 0)"
  "a < 0 \<Longrightarrow> normalize_vector (0, a) = (0, - 1)"
  "a < 0 \<Longrightarrow> normalize_vector (a, 0) = (- 1, 0)"
  by (simp_all add: normalize_vector_def real_sqrt_abs2)

lemma tested_axes_box:
  assumes "xl < xh" "yl < yh"
  shows "map (\<lambda>i. get_edge_normal ([(xl, yl), (xh, yl), (xh, yh), (xl, yh)] ! i)
                     ([(xl, yl), (xh, yl), (xh, yh), (xl, yh)] ! ((i + 1) mod 4))) [0 ..< 4]
         = [(0, 1), (- 1, 0), (0, - 1), (1, 0)]"
  using assms by (simp add: upt_rec get_edge_normal_def normalize_axis)

lemma tested_axes_box90:
  assumes "xl < xh" "yl < yh"
  shows "map (\<lambda>i. get_edge_normal ([(xh, yl), (xh, yh), (xl, yh), (xl, yl)] ! i)
                     ([(xh, yl), (xh, yh), (xl, yh), (xl, yl)] ! ((i + 1) mod 4))) [0 ..< 4]
         = [(- 1, 0), (0, - 1), (1, 0), (0, 1)]"
  using assms by (simp add: upt_rec get_edge_normal_def normalize_axis)

lemma edge_normals_upright:
  assumes "upright r"
  shows "set (map (\<lambda>i. get_edge_normal (corner_tuples r ! i) (corner_tuples r ! ((i + 1) mod 4))) [0 ..< 4])
         = {(0, 1), (- 1, 0), (0, - 1), (1, 0)}"
proof -
  from assms have "rotation r = 0 \<or> rotation r = 90" by (simp add: upright_def)
  then show ?thesis
  proof
    assume r: "rotation r = 0"
    show ?thesis
      unfolding corner_tuples_0 [OF r]
      using tested_axes_box span_le [OF assms] by auto
  next
    assume r: "rotation r = 90"
    show ?thesis
      unfolding corner_tuples_90 [OF r]
      using tested_axes_box90 span_le [OF assms] by auto
  qed
qed

lemma tested_axes_set:
  "set (tested_axes c1 c2) =
     set (map (\<lambda>i. get_edge_normal (c1 ! i) (c1 ! ((i + 1) mod 4))) [0 ..< 4]) \<union>
     set (map (\<lambda>i. get_edge_normal (c2 ! i) (c2 ! ((i + 1) mod 4))) [0 ..< 4])"
  by (auto simp: tested_axes_def)

lemma tested_axes_upright:
  "upright r1 \<Longrightarrow> upright r2 \<Longrightarrow>
   set (tested_axes (corner_tuples r1) (corner_tuples r2)) = {(0, 1), (- 1, 0), (0, - 1), (1, 0)}"
  by (simp only: tested_axes_set edge_normals_upright Un_absorb)

lemma project_upright:
  assumes "upright r"
  shows "project_polygon (1, 0) (corner_tuples r) = Inr (fst (x_span r), snd (x_span r))"
    and "project_polygon (- 1, 0) (corner_tuples r) = Inr (- snd (x_span r), - fst (x_span r))"
    and "project_polygon (0, 1) (corner_tuples r) = Inr (fst (y_span r), snd (y_span r))"
    and "project_polygon (0, - 1) (corner_tuples r) = Inr (- snd (y_span r), - fst (y_span r))"
proof -
  from assms have "rotation r = 0 \<or> rotation r = 90" by (simp add: upright_def)
  then have "project_polygon (1, 0) (corner_tuples r) = Inr (fst (x_span r), snd (x_span r)) \<and>
     project_polygon (- 1, 0) (corner_tuples r) = Inr (- snd (x_span r), - fst (x_span r)) \<and>
     project_polygon (0, 1) (corner_tuples r) = Inr (fst (y_span r), snd (y_span r)) \<and>
     project_polygon (0, - 1) (corner_tuples r) = Inr (- snd (y_span r), - fst (y_span r))"
  proof
    assume r: "rotation r = 0"
    show ?thesis
      unfolding corner_tuples_0 [OF r] project_polygon_4 dot_product_def
      using span_le [OF assms] by (simp add: min_def max_def)
  next
    assume r: "rotation r = 90"
    show ?thesis
      unfolding corner_tuples_90 [OF r] project_polygon_4 dot_product_def
      using span_le [OF assms] by (simp add: min_def max_def)
  qed
  then show "project_polygon (1, 0) (corner_tuples r) = Inr (fst (x_span r), snd (x_span r))"
    and "project_polygon (- 1, 0) (corner_tuples r) = Inr (- snd (x_span r), - fst (x_span r))"
    and "project_polygon (0, 1) (corner_tuples r) = Inr (fst (y_span r), snd (y_span r))"
    and "project_polygon (0, - 1) (corner_tuples r) = Inr (- snd (y_span r), - fst (y_span r))"
    by simp_all
qed

lemma projections_overlap_neg:
  "projections_overlap (- b, - a) (- d, - c) tol = projections_overlap (a, b) (c, d) tol"
  by (simp add: projections_overlap_def Let_def min_def max_def)

lemma rectangles_overlap_upright:
  assumes "upright r1" "upright r2"
  shows "rectangles_overlap r1 r2 tol =
     Inr (projections_overlap (x_span r1) (x_span r2) tol \<and>
          projections_overlap (y_span r1) (y_span r2) tol)"
proof -
  have "rectangles_overlap r1 r2 tol =
     Inr (\<forall>ax\<in>{(0, 1), (- 1, 0), (0, - 1), (1, 0)}. axis_ok (corner_tuples r1) (corner_tuples r2) tol ax)"
    by (simp only: rectangles_overlap_def Let_def sat_char length_corner_tuples
        tested_axes_upright [OF assms] order.refl numeral_le_iff)
  also have "\<dots> = Inr (projections_overlap (x_span r1) (x_span r2) tol \<and>
          projections_overlap (y_span r1) (y_span r2) tol)"
    by (auto simp: axis_ok_def project_upright [OF assms(1)] project_upright [OF assms(2)]
        projections_overlap_neg)
  finally show ?thesis .
qed

lemma fits_upright:
  assumes "rotation r = 0 \<or> rotation r = 90"
  shows "rectangle_fits_in_circle p r =
     (0 \<le> effective_radius p \<and>
      (fst (x_span r))\<^sup>2 + (fst (y_span r))\<^sup>2 \<le> (effective_radius p)\<^sup>2 \<and>
      (snd (x_span r))\<^sup>2 + (fst (y_span r))\<^sup>2 \<le> (effective_radius p)\<^sup>2 \<and>
      (snd (x_span r))\<^sup>2 + (snd (y_span r))\<^sup>2 \<le> (effective_radius p)\<^sup>2 \<and>
      (fst (x_span r))\<^sup>2 + (snd (y_span r))\<^sup>2 \<le> (effective_radius p)\<^sup>2)"
  using assms
proof
  assume r: "rotation r = 0"
  show ?thesis
    by (auto simp: fits_iff get_corners_0 [OF r] sqrt_le_iff x_span_def y_span_def half_x_def half_y_def r)
next
  assume r: "rotation r = 90"
  show ?thesis
    by (auto simp: fits_iff get_corners_90 [OF r] sqrt_le_iff x_span_def y_span_def half_x_def half_y_def r)
qed

subsection \<open>Invariants of the loops\<close>

lemma ebind_Inr_iff: "ebind m f = Inr v \<longleftrightarrow> (\<exists>u. m = Inr u \<and> f u = Inr v)"
  by (cases m) (auto simp: ebind_def)

lemma rbind_Some_Inr_iff:
  "rbind m f = Some (Inr v) \<longleftrightarrow> (\<exists>u. m = Some (Inr u) \<and> f u = Some (Inr v))"
  by (auto simp: rbind_def split: option.splits sum.splits)

lemma efold_inv:
  assumes "efold body vs s = Inr s'" and "I s"
    and "\<And>v t t'. v \<in> set vs \<Longrightarrow> I t \<Longrightarrow> body v t = Inr t' \<Longrightarrow> I t'"
  shows "I s'"
  using assms
proof (induction vs arbitrary: s)
  case Nil
  then show ?case by simp
next
  case (Cons v vs)
  from Cons.prems(1) obtain t where t: "body v s = Inr t" and r: "efold body vs t = Inr s'"
    by (auto simp: ebind_Inr_iff)
  have "I t" using Cons.prems(3) [OF _ Cons.prems(2) t] by simp
  moreover have "\<And>u t t'. u \<in> set vs \<Longrightarrow> I t \<Longrightarrow> body u t = Inr t' \<Longrightarrow> I t'"
    using Cons.prems(3) by (meson list.set_intros(2))
  ultimately show ?case using Cons.IH [OF r] by blast
qed

lemma rfold_inv:
  assumes "rfold body vs s = Some (Inr s')" and "I s"
    and "\<And>v t t'. v \<in> set vs \<Longrightarrow> I t \<Longrightarrow> body v t = Some (Inr t') \<Longrightarrow> I t'"
  shows "I s'"
  using assms
proof (induction vs arbitrary: s)
  case Nil
  then show ?case by simp
next
  case (Cons v vs)
  from Cons.prems(1) obtain t where t: "body v s = Some (Inr t)" and r: "rfold body vs t = Some (Inr s')"
    by (auto split: option.splits sum.splits)
  have "I t" using Cons.prems(3) [OF _ Cons.prems(2) t] by simp
  moreover have "\<And>u t t'. u \<in> set vs \<Longrightarrow> I t \<Longrightarrow> body u t = Some (Inr t') \<Longrightarrow> I t'"
    using Cons.prems(3) by (meson list.set_intros(2))
  ultimately show ?case using Cons.IH [OF r] by blast
qed

lemma fill_while_inv:
  assumes "fill_while cond body advance cur filled = Some (Inr res)" and "I filled"
    and "\<And>c f f'. I f \<Longrightarrow> body c f = Inr f' \<Longrightarrow> I f'"
  shows "I res"
proof -
  have "\<forall>res. y = Inr res \<longrightarrow> I filled \<longrightarrow> (\<forall>c f f'. I f \<longrightarrow> body c f = Inr f' \<longrightarrow> I f') \<longrightarrow> I res"
    if "fill_while cond body advance cur filled = Some y" for y
    using that
  proof (rule fill_while.raw_induct [where P = "\<lambda>cond body advance cur filled y.
      \<forall>res. y = Inr res \<longrightarrow> I filled \<longrightarrow> (\<forall>c f f'. I f \<longrightarrow> body c f = Inr f' \<longrightarrow> I f') \<longrightarrow> I res", rotated])
    fix fw cond body advance cur filled y
    assume IH: "\<And>cond body advance cur filled y. fw cond body advance cur filled = Some y \<Longrightarrow>
       \<forall>res. y = Inr res \<longrightarrow> I filled \<longrightarrow> (\<forall>c f f'. I f \<longrightarrow> body c f = Inr f' \<longrightarrow> I f') \<longrightarrow> I res"
      and step: "(if cond cur then case body cur filled of Inl e \<Rightarrow> Some (Inl e)
            | Inr filled' \<Rightarrow> fw cond body advance (advance cur) filled'
          else Some (Inr filled)) = Some y"
    show "\<forall>res. y = Inr res \<longrightarrow> I filled \<longrightarrow> (\<forall>c f f'. I f \<longrightarrow> body c f = Inr f' \<longrightarrow> I f') \<longrightarrow> I res"
    proof (intro allI impI)
      fix res assume y: "y = Inr res" and i: "I filled" and b: "\<forall>c f f'. I f \<longrightarrow> body c f = Inr f' \<longrightarrow> I f'"
      show "I res"
      proof (cases "cond cur")
        case False
        with step y i show ?thesis by simp
      next
        case True
        with step y obtain f' where f': "body cur filled = Inr f'"
          and rec: "fw cond body advance (advance cur) f' = Some y"
          by (auto split: sum.splits)
        from b i f' have "I f'" by blast
        with IH [OF rec] y b show ?thesis by blast
      qed
    qed
  qed
  with assms show ?thesis by blast
qed

lemma center_while_inv:
  assumes "center_while p cond mk advance cur filled = Some (Inr res)" and "I filled"
    and "\<And>c f. I f \<Longrightarrow> rectangle_fits_in_circle p (mk c) \<Longrightarrow> I (f @ [mk c])"
  shows "I res"
proof -
  let ?Q = "\<lambda>p mk filled y. \<forall>res. y = Inr res \<longrightarrow> I filled \<longrightarrow>
      (\<forall>c f. I f \<longrightarrow> rectangle_fits_in_circle p (mk c) \<longrightarrow> I (f @ [mk c])) \<longrightarrow> I res"
  have "?Q p mk filled y" if "center_while p cond mk advance cur filled = Some y" for y
    using that
  proof (rule center_while.raw_induct [where P = "\<lambda>p cond mk advance cur filled y. ?Q p mk filled y", rotated])
    fix cw p cond mk advance cur filled y
    assume IH: "\<And>p cond mk advance cur filled y. cw p cond mk advance cur filled = Some y \<Longrightarrow> ?Q p mk filled y"
      and step: "(if cond cur then
          let new_rect = mk cur
          in if rectangle_fits_in_circle p new_rect then
               case rectangle_overlaps_any new_rect filled (tolerance p) of
                 Inl e \<Rightarrow> Some (Inl e)
               | Inr ov \<Rightarrow> if \<not> ov then cw p cond mk advance (advance cur) (filled @ [new_rect])
                           else Some (Inr filled)
             else Some (Inr filled)
          else Some (Inr filled)) = Some y"
    show "?Q p mk filled y"
    proof (intro allI impI)
      fix res assume y: "y = Inr res" and i: "I filled"
        and b: "\<forall>c f. I f \<longrightarrow> rectangle_fits_in_circle p (mk c) \<longrightarrow> I (f @ [mk c])"
      show "I res"
      proof (cases "cond cur \<and> rectangle_fits_in_circle p (mk cur) \<and>
                    rectangle_overlaps_any (mk cur) filled (tolerance p) = Inr False")
        case True
        with step have rec: "cw p cond mk advance (advance cur) (filled @ [mk cur]) = Some y"
          by (simp add: Let_def)
        from b i True have "I (filled @ [mk cur])" by blast
        with IH [OF rec] y b show ?thesis by blast
      next
        case False
        with step y have "res = filled"
          by (auto simp: Let_def split: if_splits sum.splits)
        with i show ?thesis by simp
      qed
    qed
  qed
  with assms show ?thesis by blast
qed

lemma gap_fill_x_inv:
  assumes "gap_fill_x p scan_step y x filled = Some (Inr res)" and "I filled"
    and "\<And>x y f f'. I f \<Longrightarrow> try_orientations p x y [0, 90] f = Inr f' \<Longrightarrow> I f'"
  shows "I res"
proof -
  let ?Q = "\<lambda>p filled y. \<forall>res. y = Inr res \<longrightarrow> I filled \<longrightarrow>
      (\<forall>x y f f'. I f \<longrightarrow> try_orientations p x y [0, 90] f = Inr f' \<longrightarrow> I f') \<longrightarrow> I res"
  have "?Q p filled r" if "gap_fill_x p scan_step y x filled = Some r" for r
    using that
  proof (rule gap_fill_x.raw_induct [where P = "\<lambda>p scan_step y x filled r. ?Q p filled r", rotated])
    fix gf p scan_step y x filled r
    assume IH: "\<And>p scan_step y x filled r. gf p scan_step y x filled = Some r \<Longrightarrow> ?Q p filled r"
      and step: "(if x \<le> radius p then
           case try_orientations p x y [0, 90] filled of
             Inl e \<Rightarrow> Some (Inl e)
           | Inr filled' \<Rightarrow> gf p scan_step y (x + scan_step) filled'
          else Some (Inr filled)) = Some r"
    show "?Q p filled r"
    proof (intro allI impI)
      fix res assume y: "r = Inr res" and i: "I filled"
        and b: "\<forall>x y f f'. I f \<longrightarrow> try_orientations p x y [0, 90] f = Inr f' \<longrightarrow> I f'"
      show "I res"
      proof (cases "x \<le> radius p")
        case False
        with step y i show ?thesis by simp
      next
        case True
        with step y obtain f' where f': "try_orientations p x y [0, 90] filled = Inr f'"
          and rec: "gf p scan_step y (x + scan_step) f' = Some r"
          by (auto split: sum.splits)
        from b i f' have "I f'" by blast
        with IH [OF rec] y b show ?thesis by blast
      qed
    qed
  qed
  with assms show ?thesis by blast
qed

lemma gap_fill_y_inv:
  assumes "gap_fill_y p scan_step y filled = Some (Inr res)" and "I filled"
    and "\<And>x y f f'. I f \<Longrightarrow> try_orientations p x y [0, 90] f = Inr f' \<Longrightarrow> I f'"
  shows "I res"
proof -
  let ?Q = "\<lambda>p filled y. \<forall>res. y = Inr res \<longrightarrow> I filled \<longrightarrow>
      (\<forall>x y f f'. I f \<longrightarrow> try_orientations p x y [0, 90] f = Inr f' \<longrightarrow> I f') \<longrightarrow> I res"
  have "?Q p filled r" if "gap_fill_y p scan_step y filled = Some r" for r
    using that
  proof (rule gap_fill_y.raw_induct [where P = "\<lambda>p scan_step y filled r. ?Q p filled r", rotated])
    fix gf p scan_step y filled r
    assume IH: "\<And>p scan_step y filled r. gf p scan_step y filled = Some r \<Longrightarrow> ?Q p filled r"
      and step: "(if y \<le> radius p then
           case gap_fill_x p scan_step y (- radius p) filled of
             None \<Rightarrow> None
           | Some (Inl e) \<Rightarrow> Some (Inl e)
           | Some (Inr filled') \<Rightarrow> gf p scan_step (y + scan_step) filled'
          else Some (Inr filled)) = Some r"
    show "?Q p filled r"
    proof (intro allI impI)
      fix res assume y: "r = Inr res" and i: "I filled"
        and b: "\<forall>x y f f'. I f \<longrightarrow> try_orientations p x y [0, 90] f = Inr f' \<longrightarrow> I f'"
      show "I res"
      proof (cases "y \<le> radius p")
        case False
        with step y i show ?thesis by simp
      next
        case True
        with step y obtain f' where f': "gap_fill_x p scan_step y (- radius p) filled = Some (Inr f')"
          and rec: "gf p scan_step (y + scan_step) f' = Some r"
          by (auto split: option.splits sum.splits)
        from gap_fill_x_inv [where I = I, OF f' i] b have "I f'" by blast
        with IH [OF rec] y b show ?thesis by blast
      qed
    qed
  qed
  with assms show ?thesis by blast
qed

lemma growsD:
  "grows p I \<Longrightarrow> I f \<Longrightarrow> rectangle_fits_in_circle p r \<Longrightarrow> placeable p r \<Longrightarrow> I (f @ [r])"
  by (simp add: grows_def)

lemma placeable_new:
  "rot = 0 \<or> rot = 90 \<Longrightarrow> placeable p (new_Rectangle pos (rect_width p) (rect_height p) rot)"
  by (simp add: placeable_def new_Rectangle_def)

lemma try_place_grows:
  assumes "grows p I" "I f" "placeable p r" "try_place p r f = Inr f'"
  shows "I f'"
proof (cases "rectangle_fits_in_circle p r")
  case False
  with assms show ?thesis by (simp add: try_place_def)
next
  case True
  with assms(4) obtain ov where "f' = (if \<not> ov then f @ [r] else f)"
    by (auto simp: try_place_def ebind_Inr_iff split: if_splits)
  with growsD [OF assms(1,2) True assms(3)] assms(2) show ?thesis by simp
qed

lemma try_orientations_grows:
  assumes "grows p I" "I f" "\<forall>rot\<in>set rots. rot = 0 \<or> rot = 90"
    and "try_orientations p x y rots f = Inr f'"
  shows "I f'"
  using assms(3,4)
proof (induction rots)
  case Nil
  with assms(2) show ?case by simp
next
  case (Cons rot rots)
  let ?r = "new_Rectangle (Position x y) (rect_width p) (rect_height p) rot"
  have pl: "placeable p ?r" using Cons.prems(1) by (intro placeable_new) simp
  from Cons.prems(2) consider "try_orientations p x y rots f = Inr f'"
    | "rectangle_fits_in_circle p ?r" "f' = f @ [?r]"
    by (auto simp: Let_def ebind_Inr_iff split: if_splits)
  then show ?case
  proof cases
    case 1
    with Cons.IH Cons.prems(1) show ?thesis by simp
  next
    case 2
    with growsD [OF assms(1,2) _ pl] show ?thesis by simp
  qed
qed

lemma scan_y_grows:
  assumes "grows p I" "I f" "alt = 0 \<or> alt = 90"
    and "scan_y p alt min_y ortho_h ortho_step_y cur_x f = Inr f'"
  shows "I f'"
proof -
  from assms(4) obtain ks where
    "efold (\<lambda>k filled. try_place p (new_Rectangle
        (Position cur_x (min_y + ortho_h / 2 + of_int k * ortho_step_y))
        (rect_width p) (rect_height p) alt) filled) ks f = Inr f'"
    by (auto simp: scan_y_def Let_def ebind_Inr_iff)
  then show ?thesis
    by (rule efold_inv [where I = I, OF _ assms(2)]) (rule try_place_grows [OF assms(1) _ placeable_new [OF assms(3)]])
qed

lemma scan_x_grows:
  assumes "grows p I" "I f" "alt = 0 \<or> alt = 90"
    and "scan_x p alt min_x ortho_w ortho_step_x cur_y f = Inr f'"
  shows "I f'"
proof -
  from assms(4) obtain ks where
    "efold (\<lambda>k filled. try_place p (new_Rectangle
        (Position (min_x + ortho_w / 2 + of_int k * ortho_step_x) cur_y)
        (rect_width p) (rect_height p) alt) filled) ks f = Inr f'"
    by (auto simp: scan_x_def Let_def ebind_Inr_iff)
  then show ?thesis
    by (rule efold_inv [where I = I, OF _ assms(2)]) (rule try_place_grows [OF assms(1) _ placeable_new [OF assms(3)]])
qed

lemma fold_inv: "I s \<Longrightarrow> (\<And>v t. I t \<Longrightarrow> I (f v t)) \<Longrightarrow> I (fold f vs s)"
  by (induction vs arbitrary: s) auto

lemma grid_cell_grows:
  assumes "grows p I" "I (fst st)" "rot = 0 \<or> rot = 90"
  shows "I (fst (grid_cell p rot w h sx sy gx gy ox oy r c st))"
  using growsD [OF assms(1,2) _ placeable_new [OF assms(3)]] assms(2)
  by (simp add: grid_cell_def Let_def)

lemma base_grid_grows:
  assumes "grows p I" "I []" "rot = 0 \<or> rot = 90"
  shows "I (fst (base_grid p rot w h sx sy gx gy ox oy rows cols))"
  unfolding base_grid_def
  by (intro fold_inv [where I = "\<lambda>st. I (fst st)"] grid_cell_grows [OF assms(1) _ assms(3)])
     (simp_all add: assms(2))

text \<open>
  The bounds of the base grid are still at their initial value exactly when no rectangle was
  accepted, so the branch \<open>None\<close> under \<open>current_rects \<noteq> []\<close> in \<open>offset_trial\<close> is never
  taken.
\<close>

lemma grid_cell_bounds:
  assumes "snd st = None \<longleftrightarrow> fst st = []"
  shows "snd (grid_cell p rot w h sx sy gx gy ox oy r c st) = None \<longleftrightarrow>
         fst (grid_cell p rot w h sx sy gx gy ox oy r c st) = []"
  using assms by (simp add: grid_cell_def Let_def update_bounds_def split: option.splits)

lemma base_grid_bounds:
  "snd (base_grid p rot w h sx sy gx gy ox oy rows cols) = None \<longleftrightarrow>
   fst (base_grid p rot w h sx sy gx gy ox oy rows cols) = []"
  unfolding base_grid_def
  by (intro fold_inv [where I = "\<lambda>st. snd st = None \<longleftrightarrow> fst st = []"] grid_cell_bounds) simp_all

lemma systematic_gap_fill_grows:
  assumes "grows p I" "I f" "systematic_gap_fill p f = Some (Inr f')"
  shows "I f'"
proof -
  from assms(3) have "gap_fill_y p (min (rect_width p) (rect_height p) / 2) (- radius p) f = Some (Inr f')"
    by (simp add: systematic_gap_fill_def Let_def)
  then show ?thesis
  proof (rule gap_fill_y_inv [where I = I, OF _ assms(2)])
    fix x y g g' assume a: "I g" and b: "try_orientations p x y [0, 90] g = Inr g'"
    have c: "\<forall>rot\<in>set [0, 90::real]. rot = 0 \<or> rot = 90" by simp
    show "I g'" by (rule try_orientations_grows [OF assms(1) a c b])
  qed
qed

lemma fill_stage_elim:
  assumes "fill_stage p rot alt w h ow oh gx gy osx osy (min_x, max_x, min_y, max_y) cur best
            = Some (Inr best')"
  obtains f1 f2 f3 f4 f5 f6 where
    "fill_while (\<lambda>c. c - ow / 2 < radius p) (scan_y p alt min_y oh osy) (\<lambda>c. c + osx)
       (max_x + tolerance p + ow / 2) cur = Some (Inr f1)"
    "fill_while (\<lambda>c. c + ow / 2 > - radius p) (scan_y p alt min_y oh osy) (\<lambda>c. c - osx)
       (min_x - tolerance p - ow / 2) f1 = Some (Inr f2)"
    "fill_while (\<lambda>c. c - oh / 2 < radius p) (scan_x p alt min_x ow osx) (\<lambda>c. c + osy)
       (max_y + tolerance p + oh / 2) f2 = Some (Inr f3)"
    "fill_while (\<lambda>c. c + oh / 2 > - radius p) (scan_x p alt min_x ow osx) (\<lambda>c. c - osy)
       (min_y - tolerance p - oh / 2) f3 = Some (Inr f4)"
    "center_while p (\<lambda>c. c + h / 2 \<le> radius p)
       (\<lambda>c. new_Rectangle (Position ((min_x + max_x) / 2) c) (rect_width p) (rect_height p) rot)
       (\<lambda>c. c + gy) (max_y + tolerance p + h / 2) f4 = Some (Inr f5)"
    "center_while p (\<lambda>c. c - h / 2 \<ge> - radius p)
       (\<lambda>c. new_Rectangle (Position ((min_x + max_x) / 2) c) (rect_width p) (rect_height p) rot)
       (\<lambda>c. c - gy) (min_y - tolerance p - h / 2) f5 = Some (Inr f6)"
    "best' = (if length f6 > (if length f4 > snd best then length f4 else snd best)
              then (f6, length f6)
              else (if length f4 > snd best then f6 else fst best,
                    if length f4 > snd best then length f4 else snd best))"
  using assms
  unfolding fill_stage_def prod.case Let_def rbind_Some_Inr_iff
  by (elim exE conjE) (rule that, assumption+, auto split: if_splits)

lemma fill_stage_inv:
  assumes run: "fill_stage p rot alt w h ow oh gx gy osx osy bnd cur best = Some (Inr best')"
    and g: "grows p I" and cur: "I cur" and best: "I (fst best)"
    and rot: "rot = 0 \<or> rot = 90" and alt: "alt = 0 \<or> alt = 90"
  shows "I (fst best')"
proof -
  obtain min_x max_x min_y max_y where bnd: "bnd = (min_x, max_x, min_y, max_y)"
    by (cases bnd) auto
  from run [unfolded bnd] obtain f1 f2 f3 f4 f5 f6 where
    f1: "fill_while (\<lambda>c. c - ow / 2 < radius p) (scan_y p alt min_y oh osy) (\<lambda>c. c + osx)
       (max_x + tolerance p + ow / 2) cur = Some (Inr f1)" and
    f2: "fill_while (\<lambda>c. c + ow / 2 > - radius p) (scan_y p alt min_y oh osy) (\<lambda>c. c - osx)
       (min_x - tolerance p - ow / 2) f1 = Some (Inr f2)" and
    f3: "fill_while (\<lambda>c. c - oh / 2 < radius p) (scan_x p alt min_x ow osx) (\<lambda>c. c + osy)
       (max_y + tolerance p + oh / 2) f2 = Some (Inr f3)" and
    f4: "fill_while (\<lambda>c. c + oh / 2 > - radius p) (scan_x p alt min_x ow osx) (\<lambda>c. c - osy)
       (min_y - tolerance p - oh / 2) f3 = Some (Inr f4)" and
    f5: "center_while p (\<lambda>c. c + h / 2 \<le> radius p)
       (\<lambda>c. new_Rectangle (Position ((min_x + max_x) / 2) c) (rect_width p) (rect_height p) rot)
       (\<lambda>c. c + gy) (max_y + tolerance p + h / 2) f4 = Some (Inr f5)" and
    f6: "center_while p (\<lambda>c. c - h / 2 \<ge> - radius p)
       (\<lambda>c. new_Rectangle (Position ((min_x + max_x) / 2) c) (rect_width p) (rect_height p) rot)
       (\<lambda>c. c - gy) (min_y - tolerance p - h / 2) f5 = Some (Inr f6)" and
    res: "best' = (if length f6 > (if length f4 > snd best then length f4 else snd best)
              then (f6, length f6)
              else (if length f4 > snd best then f6 else fst best,
                    if length f4 > snd best then length f4 else snd best))"
    by (rule fill_stage_elim)
  have sy: "\<And>c f f'. I f \<Longrightarrow> scan_y p alt min_y oh osy c f = Inr f' \<Longrightarrow> I f'"
    by (rule scan_y_grows [OF g _ alt])
  have sx: "\<And>c f f'. I f \<Longrightarrow> scan_x p alt min_x ow osx c f = Inr f' \<Longrightarrow> I f'"
    by (rule scan_x_grows [OF g _ alt])
  have ce: "\<And>c f. I f \<Longrightarrow> rectangle_fits_in_circle p
        (new_Rectangle (Position ((min_x + max_x) / 2) c) (rect_width p) (rect_height p) rot) \<Longrightarrow>
      I (f @ [new_Rectangle (Position ((min_x + max_x) / 2) c) (rect_width p) (rect_height p) rot])"
    by (rule growsD [OF g _ _ placeable_new [OF rot]])
  have "I f1" by (rule fill_while_inv [where I = I, OF f1 cur sy])
  then have "I f2" by (rule fill_while_inv [where I = I, OF f2 _ sy])
  then have "I f3" by (rule fill_while_inv [where I = I, OF f3 _ sx])
  then have "I f4" by (rule fill_while_inv [where I = I, OF f4 _ sx])
  then have "I f5" by (rule center_while_inv [where I = I, OF f5 _ ce])
  then have "I f6" by (rule center_while_inv [where I = I, OF f6 _ ce])
  with best res show ?thesis by (simp split: if_splits)
qed

lemma fill_stage_count:
  assumes run: "fill_stage p rot alt w h ow oh gx gy osx osy bnd cur best = Some (Inr best')"
    and best: "snd best = length (fst best)"
  shows "snd best' = length (fst best')"
proof -
  obtain min_x max_x min_y max_y where bnd: "bnd = (min_x, max_x, min_y, max_y)"
    by (cases bnd) auto
  from run [unfolded bnd] obtain f4 f5 f6 where
    f5: "center_while p (\<lambda>c. c + h / 2 \<le> radius p)
       (\<lambda>c. new_Rectangle (Position ((min_x + max_x) / 2) c) (rect_width p) (rect_height p) rot)
       (\<lambda>c. c + gy) (max_y + tolerance p + h / 2) f4 = Some (Inr f5)" and
    f6: "center_while p (\<lambda>c. c - h / 2 \<ge> - radius p)
       (\<lambda>c. new_Rectangle (Position ((min_x + max_x) / 2) c) (rect_width p) (rect_height p) rot)
       (\<lambda>c. c - gy) (min_y - tolerance p - h / 2) f5 = Some (Inr f6)" and
    res: "best' = (if length f6 > (if length f4 > snd best then length f4 else snd best)
              then (f6, length f6)
              else (if length f4 > snd best then f6 else fst best,
                    if length f4 > snd best then length f4 else snd best))"
    by (rule fill_stage_elim)
  have "length f4 \<le> length f5"
    by (rule center_while_inv [where I = "\<lambda>f. length f4 \<le> length f", OF f5]) simp_all
  then have "length f4 \<le> length f6"
    by (rule center_while_inv [where I = "\<lambda>f. length f4 \<le> length f", OF f6]) simp_all
  with best res show ?thesis by (auto split: if_splits)
qed

lemma offset_trial_eq:
  "offset_trial p rot alt w h ow oh gx gy osx osy sx sy i j best =
     (if gx = 0 \<or> gy = 0 then Some (Inl ZeroDivisionError)
      else if fst (base_grid p rot w h (- radius p - w) (- radius p - h) gx gy
                (gx / of_int sx * of_int i) (gy / of_int sy * of_int j)
                (py_int ((circle_diameter p + 2 * h) / gy) + 2)
                (py_int ((circle_diameter p + 2 * w) / gx) + 2)) \<noteq> [] then
        (case snd (base_grid p rot w h (- radius p - w) (- radius p - h) gx gy
                (gx / of_int sx * of_int i) (gy / of_int sy * of_int j)
                (py_int ((circle_diameter p + 2 * h) / gy) + 2)
                (py_int ((circle_diameter p + 2 * w) / gx) + 2)) of
           None \<Rightarrow> Some (Inr best)
         | Some bnd \<Rightarrow>
             fill_stage p rot alt w h ow oh gx gy osx osy bnd
               (fst (base_grid p rot w h (- radius p - w) (- radius p - h) gx gy
                (gx / of_int sx * of_int i) (gy / of_int sy * of_int j)
                (py_int ((circle_diameter p + 2 * h) / gy) + 2)
                (py_int ((circle_diameter p + 2 * w) / gx) + 2))) best)
      else Some (Inr best))"
  by (simp add: offset_trial_def py_div_def Let_def cong: option.case_cong)

lemma offset_trial_inv:
  assumes run: "offset_trial p rot alt w h ow oh gx gy osx osy sx sy i j best = Some (Inr best')"
    and g: "grows p I" and nil: "I []" and best: "best_ok I best"
    and rot: "rot = 0 \<or> rot = 90" and alt: "alt = 0 \<or> alt = 90"
  shows "best_ok I best'"
proof -
  define grid where "grid = base_grid p rot w h (- radius p - w) (- radius p - h) gx gy
                (gx / of_int sx * of_int i) (gy / of_int sy * of_int j)
                (py_int ((circle_diameter p + 2 * h) / gy) + 2)
                (py_int ((circle_diameter p + 2 * w) / gx) + 2)"
  have run': "(if gx = 0 \<or> gy = 0 then Some (Inl ZeroDivisionError)
      else if fst grid \<noteq> [] then
        (case snd grid of None \<Rightarrow> Some (Inr best)
         | Some bnd \<Rightarrow> fill_stage p rot alt w h ow oh gx gy osx osy bnd (fst grid) best)
      else Some (Inr best)) = Some (Inr best')"
    using run unfolding offset_trial_eq grid_def .
  have ig: "I (fst grid)" unfolding grid_def by (rule base_grid_grows [OF g nil rot])
  show ?thesis
  proof (cases "fst grid \<noteq> [] \<and> snd grid \<noteq> None")
    case False
    with run' have "best' = best" by (auto split: if_splits option.splits)
    with best show ?thesis by simp
  next
    case True
    then obtain bnd where bnd: "snd grid = Some bnd" by auto
    with run' True have fs: "fill_stage p rot alt w h ow oh gx gy osx osy bnd (fst grid) best = Some (Inr best')"
      by (auto split: if_splits)
    from fill_stage_inv [OF fs g ig _ rot alt] fill_stage_count [OF fs] best
    show ?thesis by (simp add: best_ok_def)
  qed
qed

lemma strict_grid_packing_elim:
  assumes "strict_grid_packing p rot = Some (Inr result)"
  obtains best best2 where
    "rfold (\<lambda>i. rfold (\<lambda>j. offset_trial p (of_int rot) (if rot = 90 then 0 else 90)
        (if rot = 90 then rect_height p else rect_width p)
        (if rot = 90 then rect_width p else rect_height p)
        (if rot = 90 then rect_width p else rect_height p)
        (if rot = 90 then rect_height p else rect_width p)
        ((if rot = 90 then rect_height p else rect_width p) + tolerance p)
        ((if rot = 90 then rect_width p else rect_height p) + tolerance p)
        ((if rot = 90 then rect_width p else rect_height p) + tolerance p)
        ((if rot = 90 then rect_height p else rect_width p) + tolerance p) 10 10 i j)
        (py_range 0 10)) (py_range 0 10) ([], 0) = Some (Inr best)"
    "(if fst best \<noteq> [] then
        rbind (systematic_gap_fill p (fst best)) (\<lambda>best_rects.
          Some (Inr (best_rects, length best_rects)))
      else Some (Inr best)) = Some (Inr best2)"
    "rectangles result = fst best2" "count result = snd best2"
    "circle result = Some \<lparr>Circle.radius = radius p, position = Position 0 0\<rparr>"
  using assms
  unfolding strict_grid_packing_def Let_def rbind_Some_Inr_iff
  by (elim exE conjE) (rule that, assumption+, auto simp: new_PackingResult_def)

lemma strict_grid_packing_inv:
  assumes run: "strict_grid_packing p rot = Some (Inr result)"
    and g: "grows p I" and nil: "I []" and rot: "rot = 0 \<or> rot = 90"
  shows "I (rectangles result) \<and> count result = length (rectangles result) \<and>
         circle result = Some \<lparr>Circle.radius = radius p, position = Position 0 0\<rparr>"
proof -
  let ?w = "if rot = 90 then rect_height p else rect_width p"
  let ?h = "if rot = 90 then rect_width p else rect_height p"
  let ?alt = "if rot = 90 then 0 else 90 :: real"
  let ?body = "\<lambda>i. rfold (\<lambda>j. offset_trial p (of_int rot) ?alt ?w ?h ?h ?w
        (?w + tolerance p) (?h + tolerance p) (?h + tolerance p) (?w + tolerance p) 10 10 i j)
        (py_range 0 10)"
  from run obtain best best2 where
    loop: "rfold ?body (py_range 0 10) ([], 0) = Some (Inr best)" and
    fill: "(if fst best \<noteq> [] then
              rbind (systematic_gap_fill p (fst best)) (\<lambda>best_rects.
                Some (Inr (best_rects, length best_rects)))
            else Some (Inr best)) = Some (Inr best2)" and
    res: "rectangles result = fst best2" "count result = snd best2"
      "circle result = Some \<lparr>Circle.radius = radius p, position = Position 0 0\<rparr>"
    by (rule strict_grid_packing_elim)
  have rot': "of_int rot = (0 :: real) \<or> of_int rot = (90 :: real)" using rot by auto
  have alt: "?alt = 0 \<or> ?alt = 90" by simp
  have inner: "best_ok I t'" if "best_ok I t" and "?body i t = Some (Inr t')" for i t t'
    using that(2) that(1)
    by (rule rfold_inv [where I = "best_ok I"]) (rule offset_trial_inv [OF _ g nil _ rot' alt])
  have b: "best_ok I best"
  proof (rule rfold_inv [where I = "best_ok I", OF loop])
    show "best_ok I ([], 0)" by (simp add: best_ok_def nil)
  next
    fix v t t' assume "best_ok I t" "?body v t = Some (Inr t')"
    then show "best_ok I t'" by (rule inner)
  qed
  have "best_ok I best2"
  proof (cases "fst best = []")
    case True
    with fill b show ?thesis by simp
  next
    case False
    with fill obtain rs where rs: "systematic_gap_fill p (fst best) = Some (Inr rs)"
      and b2: "best2 = (rs, length rs)"
      by (auto simp: rbind_Some_Inr_iff)
    from systematic_gap_fill_grows [OF g _ rs] b b2 show ?thesis by (simp add: best_ok_def)
  qed
  with res show ?thesis by (simp add: best_ok_def)
qed

lemma py_max_key_in: "py_max_key key vs = Inr b \<Longrightarrow> b \<in> set vs"
proof (cases vs)
  case Nil
  then show "py_max_key key vs = Inr b \<Longrightarrow> b \<in> set vs" by simp
next
  case (Cons v us)
  have "fold (\<lambda>c best. if key c > key best then c else best) us v \<in> set (v # us)"
  proof (induction us arbitrary: v)
    case Nil
    show ?case by simp
  next
    case (Cons u us)
    from Cons.IH [of "if key u > key v then u else v"] show ?case
      by (auto split: if_splits)
  qed
  then show "py_max_key key vs = Inr b \<Longrightarrow> b \<in> set vs" using Cons by auto
qed

lemma valid_results_subset:
  assumes "efold (\<lambda>result valid_results.
             ebind (validate_no_overlaps p (rectangles result)) (\<lambda>ok.
               Inr (if ok then valid_results @ [result] else valid_results)))
           results acc = Inr valid"
  shows "set valid \<subseteq> set acc \<union> set results"
  using assms
proof (induction results arbitrary: acc)
  case Nil
  then show ?case by simp
next
  case (Cons r results)
  from Cons.prems obtain ok where
    "efold (\<lambda>result valid_results.
             ebind (validate_no_overlaps p (rectangles result)) (\<lambda>ok.
               Inr (if ok then valid_results @ [result] else valid_results)))
           results (if ok then acc @ [r] else acc) = Inr valid"
    by (auto simp: ebind_Inr_iff)
  from Cons.IH [OF this] show ?case by (auto split: if_splits)
qed

lemma find_optimal_packing_elim:
  assumes "find_optimal_packing p = Some (Inr result)"
  obtains r0 r90 best where
    "strict_grid_packing p 0 = Some (Inr r0)" "strict_grid_packing p 90 = Some (Inr r90)"
    "best = r0 \<or> best = r90" "result = calculate_efficiency p best"
proof -
  from assms obtain r0 r90 valid best where
    r0: "strict_grid_packing p 0 = Some (Inr r0)" and r90: "strict_grid_packing p 90 = Some (Inr r90)"
    and v: "efold (\<lambda>result valid_results.
             ebind (validate_no_overlaps p (rectangles result)) (\<lambda>ok.
               Inr (if ok then valid_results @ [result] else valid_results)))
           [r0, r90] [] = Inr valid"
    and b: "(if valid \<noteq> [] then py_max_key count valid
             else if [r0, r90] \<noteq> [] then py_max_key count [r0, r90]
             else Inr new_PackingResult) = Inr best"
    and res: "result = calculate_efficiency p best"
    unfolding find_optimal_packing_def Let_def rbind_Some_Inr_iff option.inject ebind_Inr_iff
    by (elim exE conjE) (rule that, assumption+, simp)
  from valid_results_subset [OF v] have sub: "set valid \<subseteq> {r0, r90}" by auto
  have "best \<in> {r0, r90}"
  proof (cases "valid \<noteq> []")
    case True
    with b have "py_max_key count valid = Inr best" by simp
    from py_max_key_in [OF this] sub show ?thesis by blast
  next
    case False
    with b have "py_max_key count [r0, r90] = Inr best" by simp
    from py_max_key_in [OF this] show ?thesis by simp
  qed
  then have "best = r0 \<or> best = r90" by simp
  from that [OF r0 r90 this res] show thesis .
qed

lemma calculate_efficiency_fields:
  "rectangles (calculate_efficiency p r) = rectangles r"
  "count (calculate_efficiency p r) = count r"
  "circle (calculate_efficiency p r) = circle r"
  by (simp_all add: calculate_efficiency_def Let_def split: option.splits)

lemma find_optimal_packing_inv:
  assumes run: "find_optimal_packing p = Some (Inr result)" and g: "grows p I" and nil: "I []"
  shows "I (rectangles result) \<and> count result = length (rectangles result) \<and>
         circle result = Some \<lparr>Circle.radius = radius p, position = Position 0 0\<rparr>"
proof -
  from run obtain r0 r90 best where
    r0: "strict_grid_packing p 0 = Some (Inr r0)" and r90: "strict_grid_packing p 90 = Some (Inr r90)"
    and b: "best = r0 \<or> best = r90" and res: "result = calculate_efficiency p best"
    by (rule find_optimal_packing_elim)
  from strict_grid_packing_inv [OF r0 g nil] strict_grid_packing_inv [OF r90 g nil] b
  have "I (rectangles best) \<and> count best = length (rectangles best) \<and>
         circle best = Some \<lparr>Circle.radius = radius p, position = Position 0 0\<rparr>"
    by auto
  then show ?thesis by (simp add: res calculate_efficiency_fields)
qed

lemma grows_list_all:
  assumes "\<And>r. rectangle_fits_in_circle p r \<Longrightarrow> placeable p r \<Longrightarrow> Q r"
  shows "grows p (list_all Q)"
  using assms by (simp add: grows_def)

subsection \<open>Termination\<close>

lemma rectangle_overlaps_any_total: "\<exists>b. rectangle_overlaps_any r rs tol = Inr b"
proof (induction rs)
  case Nil
  show ?case by (intro exI [of _ False]) simp
next
  case (Cons q rs)
  obtain b where "rectangles_overlap r q tol = Inr b" using rectangles_overlap_total by blast
  with Cons show ?case by (auto simp: ebind_def)
qed

lemma try_place_total: "\<exists>f'. try_place p r f = Inr f'"
  using rectangle_overlaps_any_total [of r f "tolerance p"]
  by (auto simp: try_place_def ebind_def)

lemma try_orientations_total: "\<exists>f'. try_orientations p x y rots f = Inr f'"
proof (induction rots)
  case Nil
  show ?case by simp
next
  case (Cons rot rots)
  obtain b where "rectangle_overlaps_any (new_Rectangle (Position x y) (rect_width p) (rect_height p) rot)
      f (tolerance p) = Inr b"
    using rectangle_overlaps_any_total by blast
  with Cons show ?case by (auto simp: ebind_def Let_def)
qed

lemma efold_total:
  assumes "\<And>v s. \<exists>s'. body v s = Inr s'"
  shows "\<exists>s'. efold body vs s = Inr s'"
proof (induction vs arbitrary: s)
  case Nil
  show ?case by simp
next
  case (Cons v vs)
  obtain t where "body v s = Inr t" using assms by blast
  with Cons [of t] show ?case by (simp add: ebind_def)
qed

lemma rfold_total:
  assumes "\<And>v s. \<exists>s'. body v s = Some (Inr s')"
  shows "\<exists>s'. rfold body vs s = Some (Inr s')"
proof (induction vs arbitrary: s)
  case Nil
  show ?case by simp
next
  case (Cons v vs)
  obtain t where "body v s = Some (Inr t)" using assms by blast
  with Cons [of t] show ?case by simp
qed

lemma scan_y_total:
  "ortho_step_y \<noteq> 0 \<Longrightarrow> \<exists>f'. scan_y p alt min_y ortho_h ortho_step_y cur_x f = Inr f'"
  unfolding scan_y_def Let_def py_div_def
  by (simp add: ebind_def) (rule efold_total, rule try_place_total)

lemma scan_x_total:
  "ortho_step_x \<noteq> 0 \<Longrightarrow> \<exists>f'. scan_x p alt min_x ortho_w ortho_step_x cur_y f = Inr f'"
  unfolding scan_x_def Let_def py_div_def
  by (simp add: ebind_def) (rule efold_total, rule try_place_total)

lemma fill_while_total:
  fixes m :: "real \<Rightarrow> nat"
  assumes body: "\<And>c f. \<exists>f'. body c f = Inr f'"
    and dec: "\<And>c. cond c \<Longrightarrow> m (advance c) < m c"
  shows "\<exists>res. fill_while cond body advance cur filled = Some (Inr res)"
proof (induction "m cur" arbitrary: cur filled rule: less_induct)
  case less
  show ?case
  proof (cases "cond cur")
    case False
    then show ?thesis by (subst fill_while.simps) simp
  next
    case True
    obtain f' where f': "body cur filled = Inr f'" using body by blast
    from less [OF dec [OF True], of f'] True f' show ?thesis
      by (subst fill_while.simps) simp
  qed
qed

lemma center_while_total:
  fixes m :: "real \<Rightarrow> nat"
  assumes dec: "\<And>c. cond c \<Longrightarrow> m (advance c) < m c"
  shows "\<exists>res. center_while p cond mk advance cur filled = Some (Inr res)"
proof (induction "m cur" arbitrary: cur filled rule: less_induct)
  case less
  obtain b where b: "rectangle_overlaps_any (mk cur) filled (tolerance p) = Inr b"
    using rectangle_overlaps_any_total by blast
  show ?case
  proof (cases "cond cur \<and> rectangle_fits_in_circle p (mk cur) \<and> \<not> b")
    case False
    with b show ?thesis by (subst center_while.simps) (auto simp: Let_def)
  next
    case True
    with less [of "advance cur" "filled @ [mk cur]"] dec [of cur] b show ?thesis
      by (subst center_while.simps) (simp add: Let_def)
  qed
qed

lemma gap_fill_x_total:
  assumes "0 < scan_step"
  shows "\<exists>res. gap_fill_x p scan_step y cur_x filled = Some (Inr res)"
proof (induction "nat (\<lfloor>(radius p - cur_x) / scan_step\<rfloor> + 1)" arbitrary: cur_x filled rule: less_induct)
  case less
  show ?case
  proof (cases "cur_x \<le> radius p")
    case False
    then show ?thesis by (subst gap_fill_x.simps) simp
  next
    case True
    obtain f' where f': "try_orientations p cur_x y [0, 90] filled = Inr f'"
      using try_orientations_total by blast
    have eq: "(radius p - (cur_x + scan_step)) / scan_step = (radius p - cur_x) / scan_step - 1"
      using assms by (simp add: field_simps)
    have "0 \<le> (radius p - cur_x) / scan_step" using True assms by simp
    then have "0 \<le> \<lfloor>(radius p - cur_x) / scan_step\<rfloor>" by simp
    then have "nat (\<lfloor>(radius p - (cur_x + scan_step)) / scan_step\<rfloor> + 1)
          < nat (\<lfloor>(radius p - cur_x) / scan_step\<rfloor> + 1)"
      unfolding eq by simp
    from less [OF this, of f'] True f' show ?thesis
      by (subst gap_fill_x.simps) simp
  qed
qed

lemma gap_fill_y_total:
  assumes "0 < scan_step"
  shows "\<exists>res. gap_fill_y p scan_step y filled = Some (Inr res)"
proof (induction "nat (\<lfloor>(radius p - y) / scan_step\<rfloor> + 1)" arbitrary: y filled rule: less_induct)
  case less
  show ?case
  proof (cases "y \<le> radius p")
    case False
    then show ?thesis by (subst gap_fill_y.simps) simp
  next
    case True
    obtain f' where f': "gap_fill_x p scan_step y (- radius p) filled = Some (Inr f')"
      using gap_fill_x_total [OF assms] by blast
    have eq: "(radius p - (y + scan_step)) / scan_step = (radius p - y) / scan_step - 1"
      using assms by (simp add: field_simps)
    have "0 \<le> (radius p - y) / scan_step" using True assms by simp
    then have "0 \<le> \<lfloor>(radius p - y) / scan_step\<rfloor>" by simp
    then have "nat (\<lfloor>(radius p - (y + scan_step)) / scan_step\<rfloor> + 1)
          < nat (\<lfloor>(radius p - y) / scan_step\<rfloor> + 1)"
      unfolding eq by simp
    from less [OF this, of f'] True f' show ?thesis
      by (subst gap_fill_y.simps) simp
  qed
qed

lemma systematic_gap_fill_total:
  "0 < rect_width p \<Longrightarrow> 0 < rect_height p \<Longrightarrow> \<exists>res. systematic_gap_fill p f = Some (Inr res)"
  unfolding systematic_gap_fill_def Let_def
  by (rule gap_fill_y_total) simp

text \<open>Measures of the four loop shapes.\<close>

lemma up_strict_measure:
  fixes s :: real
  assumes "0 < s" "c < b"
  shows "nat \<lceil>(b - (c + s)) / s\<rceil> < nat \<lceil>(b - c) / s\<rceil>"
proof -
  have eq: "(b - (c + s)) / s = (b - c) / s - 1" using assms by (simp add: field_simps)
  have "0 < (b - c) / s" using assms by simp
  then have "0 < \<lceil>(b - c) / s\<rceil>" by simp
  then show ?thesis unfolding eq by simp
qed

lemma down_strict_measure:
  fixes s :: real
  assumes "0 < s" "a < c"
  shows "nat \<lceil>((c - s) - a) / s\<rceil> < nat \<lceil>(c - a) / s\<rceil>"
proof -
  have eq: "((c - s) - a) / s = (c - a) / s - 1" using assms by (simp add: field_simps)
  have "0 < (c - a) / s" using assms by simp
  then have "0 < \<lceil>(c - a) / s\<rceil>" by simp
  then show ?thesis unfolding eq by simp
qed

lemma up_measure:
  fixes s :: real
  assumes "0 < s" "c \<le> b"
  shows "nat (\<lfloor>(b - (c + s)) / s\<rfloor> + 1) < nat (\<lfloor>(b - c) / s\<rfloor> + 1)"
proof -
  have eq: "(b - (c + s)) / s = (b - c) / s - 1" using assms by (simp add: field_simps)
  have "0 \<le> (b - c) / s" using assms by simp
  then have "0 \<le> \<lfloor>(b - c) / s\<rfloor>" by simp
  then show ?thesis unfolding eq by simp
qed

lemma down_measure:
  fixes s :: real
  assumes "0 < s" "a \<le> c"
  shows "nat (\<lfloor>((c - s) - a) / s\<rfloor> + 1) < nat (\<lfloor>(c - a) / s\<rfloor> + 1)"
proof -
  have eq: "((c - s) - a) / s = (c - a) / s - 1" using assms by (simp add: field_simps)
  have "0 \<le> (c - a) / s" using assms by simp
  then have "0 \<le> \<lfloor>(c - a) / s\<rfloor>" by simp
  then show ?thesis unfolding eq by simp
qed

lemma rbind_Some_Inr [simp]: "rbind (Some (Inr v)) f = f v"
  by (simp add: rbind_def)

lemma fill_stage_total:
  assumes "0 < osx" "0 < osy" "0 < gy"
  shows "\<exists>best'. fill_stage p rot alt w h ow oh gx gy osx osy bnd cur best = Some (Inr best')"
proof -
  obtain min_x max_x min_y max_y where bnd: "bnd = (min_x, max_x, min_y, max_y)"
    by (cases bnd) auto
  have sy: "\<And>c f. \<exists>f'. scan_y p alt min_y oh osy c f = Inr f'"
    using assms(2) by (intro scan_y_total) simp
  have sx: "\<And>c f. \<exists>f'. scan_x p alt min_x ow osx c f = Inr f'"
    using assms(1) by (intro scan_x_total) simp
  have d1: "nat \<lceil>(radius p + ow / 2 - (c + osx)) / osx\<rceil> < nat \<lceil>(radius p + ow / 2 - c) / osx\<rceil>"
    if "c - ow / 2 < radius p" for c
    using that by (intro up_strict_measure [OF assms(1)]) linarith
  have d2: "nat \<lceil>((c - osx) - (- radius p - ow / 2)) / osx\<rceil> < nat \<lceil>(c - (- radius p - ow / 2)) / osx\<rceil>"
    if "c + ow / 2 > - radius p" for c
    using that by (intro down_strict_measure [OF assms(1)]) linarith
  have d3: "nat \<lceil>(radius p + oh / 2 - (c + osy)) / osy\<rceil> < nat \<lceil>(radius p + oh / 2 - c) / osy\<rceil>"
    if "c - oh / 2 < radius p" for c
    using that by (intro up_strict_measure [OF assms(2)]) linarith
  have d4: "nat \<lceil>((c - osy) - (- radius p - oh / 2)) / osy\<rceil> < nat \<lceil>(c - (- radius p - oh / 2)) / osy\<rceil>"
    if "c + oh / 2 > - radius p" for c
    using that by (intro down_strict_measure [OF assms(2)]) linarith
  have d5: "nat (\<lfloor>(radius p - h / 2 - (c + gy)) / gy\<rfloor> + 1) < nat (\<lfloor>(radius p - h / 2 - c) / gy\<rfloor> + 1)"
    if "c + h / 2 \<le> radius p" for c
    using that by (intro up_measure [OF assms(3)]) linarith
  have d6: "nat (\<lfloor>((c - gy) - (- radius p + h / 2)) / gy\<rfloor> + 1) < nat (\<lfloor>(c - (- radius p + h / 2)) / gy\<rfloor> + 1)"
    if "c - h / 2 \<ge> - radius p" for c
    using that by (intro down_measure [OF assms(3)]) linarith
  obtain f1 where f1: "fill_while (\<lambda>c. c - ow / 2 < radius p) (scan_y p alt min_y oh osy)
       (\<lambda>c. c + osx) (max_x + tolerance p + ow / 2) cur = Some (Inr f1)"
    using fill_while_total [where body = "scan_y p alt min_y oh osy" and cond = "\<lambda>c. c - ow / 2 < radius p" and advance = "\<lambda>c. c + osx"
        and m = "\<lambda>c. nat \<lceil>(radius p + ow / 2 - c) / osx\<rceil>", OF sy d1]
    by blast
  obtain f2 where f2: "fill_while (\<lambda>c. c + ow / 2 > - radius p) (scan_y p alt min_y oh osy)
       (\<lambda>c. c - osx) (min_x - tolerance p - ow / 2) f1 = Some (Inr f2)"
    using fill_while_total [where body = "scan_y p alt min_y oh osy" and cond = "\<lambda>c. c + ow / 2 > - radius p" and advance = "\<lambda>c. c - osx"
        and m = "\<lambda>c. nat \<lceil>(c - (- radius p - ow / 2)) / osx\<rceil>", OF sy d2]
    by blast
  obtain f3 where f3: "fill_while (\<lambda>c. c - oh / 2 < radius p) (scan_x p alt min_x ow osx)
       (\<lambda>c. c + osy) (max_y + tolerance p + oh / 2) f2 = Some (Inr f3)"
    using fill_while_total [where body = "scan_x p alt min_x ow osx" and cond = "\<lambda>c. c - oh / 2 < radius p" and advance = "\<lambda>c. c + osy"
        and m = "\<lambda>c. nat \<lceil>(radius p + oh / 2 - c) / osy\<rceil>", OF sx d3]
    by blast
  obtain f4 where f4: "fill_while (\<lambda>c. c + oh / 2 > - radius p) (scan_x p alt min_x ow osx)
       (\<lambda>c. c - osy) (min_y - tolerance p - oh / 2) f3 = Some (Inr f4)"
    using fill_while_total [where body = "scan_x p alt min_x ow osx" and cond = "\<lambda>c. c + oh / 2 > - radius p" and advance = "\<lambda>c. c - osy"
        and m = "\<lambda>c. nat \<lceil>(c - (- radius p - oh / 2)) / osy\<rceil>", OF sx d4]
    by blast
  let ?mk = "\<lambda>c. new_Rectangle (Position ((min_x + max_x) / 2) c) (rect_width p) (rect_height p) rot"
  obtain f5 where f5: "center_while p (\<lambda>c. c + h / 2 \<le> radius p) ?mk
       (\<lambda>c. c + gy) (max_y + tolerance p + h / 2) f4 = Some (Inr f5)"
    using center_while_total [where cond = "\<lambda>c. c + h / 2 \<le> radius p" and advance = "\<lambda>c. c + gy"
        and m = "\<lambda>c. nat (\<lfloor>(radius p - h / 2 - c) / gy\<rfloor> + 1)", OF d5]
    by blast
  obtain f6 where f6: "center_while p (\<lambda>c. c - h / 2 \<ge> - radius p) ?mk
       (\<lambda>c. c - gy) (min_y - tolerance p - h / 2) f5 = Some (Inr f6)"
    using center_while_total [where cond = "\<lambda>c. c - h / 2 \<ge> - radius p" and advance = "\<lambda>c. c - gy"
        and m = "\<lambda>c. nat (\<lfloor>(c - (- radius p + h / 2)) / gy\<rfloor> + 1)", OF d6]
    by blast
  show ?thesis
    unfolding bnd fill_stage_def prod.case Let_def
    by (simp only: f1 f2 f3 f4 f5 f6 rbind_Some_Inr) (simp split: if_splits)
qed

lemma offset_trial_total:
  assumes "0 < gx" "0 < gy" "0 < osx" "0 < osy"
  shows "\<exists>best'. offset_trial p rot alt w h ow oh gx gy osx osy sx sy i j best = Some (Inr best')"
proof -
  define grid where "grid = base_grid p rot w h (- radius p - w) (- radius p - h) gx gy
                (gx / of_int sx * of_int i) (gy / of_int sy * of_int j)
                (py_int ((circle_diameter p + 2 * h) / gy) + 2)
                (py_int ((circle_diameter p + 2 * w) / gx) + 2)"
  have eq: "offset_trial p rot alt w h ow oh gx gy osx osy sx sy i j best =
      (if fst grid \<noteq> [] then
        (case snd grid of None \<Rightarrow> Some (Inr best)
         | Some bnd \<Rightarrow> fill_stage p rot alt w h ow oh gx gy osx osy bnd (fst grid) best)
      else Some (Inr best))"
    using assms(1,2) unfolding offset_trial_eq grid_def by simp
  show ?thesis
    unfolding eq using fill_stage_total [OF assms(3,4,2)]
    by (simp split: option.splits)
qed

lemma strict_grid_packing_total:
  assumes "0 < rect_width p" "0 < rect_height p" "0 \<le> tolerance p"
  shows "\<exists>result. strict_grid_packing p rot = Some (Inr result)"
proof -
  let ?w = "if rot = 90 then rect_height p else rect_width p"
  let ?h = "if rot = 90 then rect_width p else rect_height p"
  let ?alt = "if rot = 90 then 0 else 90 :: real"
  let ?body = "\<lambda>i. rfold (\<lambda>j. offset_trial p (of_int rot) ?alt ?w ?h ?h ?w
        (?w + tolerance p) (?h + tolerance p) (?h + tolerance p) (?w + tolerance p) 10 10 i j)
        (py_range 0 10)"
  have pos: "0 < ?w + tolerance p" "0 < ?h + tolerance p" using assms by auto
  have "\<exists>best. rfold ?body (py_range 0 10) ([], 0) = Some (Inr best)"
    by (intro rfold_total offset_trial_total pos)
  then obtain best where best: "rfold ?body (py_range 0 10) ([], 0) = Some (Inr best)" ..
  obtain rs where rs: "systematic_gap_fill p (fst best) = Some (Inr rs)"
    using systematic_gap_fill_total [OF assms(1,2)] by blast
  show ?thesis
    unfolding strict_grid_packing_def Let_def
    by (simp only: best rbind_Some_Inr) (simp add: rs)
qed

lemma validate_row_total: "\<exists>b. validate_row p r rs = Inr b"
proof (induction rs)
  case Nil
  show ?case by (intro exI [of _ True]) simp
next
  case (Cons q rs)
  obtain b where "rectangles_overlap r q (tolerance p) = Inr b"
    using rectangles_overlap_total by blast
  with Cons show ?case by (auto simp: ebind_def)
qed

lemma validate_no_overlaps_total: "\<exists>b. validate_no_overlaps p rs = Inr b"
proof (induction rs)
  case Nil
  show ?case by (intro exI [of _ True]) simp
next
  case (Cons r rs)
  obtain b where "validate_row p r rs = Inr b" using validate_row_total by blast
  with Cons show ?case by (auto simp: ebind_def)
qed

lemma py_max_key_total: "vs \<noteq> [] \<Longrightarrow> \<exists>b. py_max_key key vs = Inr b"
  by (cases vs) auto

lemma find_optimal_packing_total:
  assumes "0 < rect_width p" "0 < rect_height p" "0 \<le> tolerance p"
  shows "\<exists>result. find_optimal_packing p = Some (Inr result)"
proof -
  obtain r0 where r0: "strict_grid_packing p 0 = Some (Inr r0)"
    using strict_grid_packing_total [OF assms] by blast
  obtain r90 where r90: "strict_grid_packing p 90 = Some (Inr r90)"
    using strict_grid_packing_total [OF assms] by blast
  have "\<exists>valid. efold (\<lambda>result valid_results.
             ebind (validate_no_overlaps p (rectangles result)) (\<lambda>ok.
               Inr (if ok then valid_results @ [result] else valid_results)))
           [r0, r90] [] = Inr valid"
  proof (rule efold_total)
    fix v s
    obtain b where "validate_no_overlaps p (rectangles v) = Inr b"
      using validate_no_overlaps_total by blast
    then show "\<exists>s'. ebind (validate_no_overlaps p (rectangles v)) (\<lambda>ok.
               Inr (if ok then s @ [v] else s)) = Inr s'"
      by (simp add: ebind_def)
  qed
  then obtain valid where v: "efold (\<lambda>result valid_results.
             ebind (validate_no_overlaps p (rectangles result)) (\<lambda>ok.
               Inr (if ok then valid_results @ [result] else valid_results)))
           [r0, r90] [] = Inr valid" ..
  obtain best where b: "(if valid \<noteq> [] then py_max_key count valid
             else if [r0, r90] \<noteq> [] then py_max_key count [r0, r90]
             else Inr new_PackingResult) = Inr best"
    using py_max_key_total [of valid count] py_max_key_total [of "[r0, r90]" count]
    by (cases "valid = []") auto
  show ?thesis
    unfolding find_optimal_packing_def Let_def
    by (simp only: r0 r90 rbind_Some_Inr v) (simp add: b ebind_def)
qed

subsection \<open>Metrics and degenerate configurations\<close>

lemma find_optimal_packing_metrics:
  assumes "find_optimal_packing p = Some (Inr result)"
  shows "count result = length (rectangles result) \<and>
     total_area result = pi * (radius p)\<^sup>2 \<and>
     used_area result = of_nat (count result) * (rect_width p * rect_height p) \<and>
     (if total_area result > 0
      then efficiency result = used_area result / total_area result * 100 \<and>
           waste result = 100 - efficiency result
      else efficiency result = 0 \<and> waste result = 100)"
proof -
  from assms obtain r0 r90 best where
    r0: "strict_grid_packing p 0 = Some (Inr r0)" and r90: "strict_grid_packing p 90 = Some (Inr r90)"
    and b: "best = r0 \<or> best = r90" and res: "result = calculate_efficiency p best"
    by (rule find_optimal_packing_elim)
  have g: "grows p (\<lambda>f. True)" by (simp add: grows_def)
  from strict_grid_packing_inv [OF r0 g] strict_grid_packing_inv [OF r90 g] b
  have "count best = length (rectangles best) \<and>
         circle best = Some \<lparr>Circle.radius = radius p, position = Position 0 0\<rparr>"
    by auto
  then show ?thesis
    unfolding res by (simp add: calculate_efficiency_def Let_def sum_list_triv)
qed


lemma new_packer_fields [simp]:
  "circle_diameter (new_RectanglePacker d w h tol sz) = d"
  "rect_width (new_RectanglePacker d w h tol sz) = w"
  "rect_height (new_RectanglePacker d w h tol sz) = h"
  "radius (new_RectanglePacker d w h tol sz) = d / 2"
  "tolerance (new_RectanglePacker d w h tol sz) = tol"
  "safe_zone (new_RectanglePacker d w h tol sz) = sz"
  "effective_radius (new_RectanglePacker d w h tol sz) = d / 2 - sz"
  by (simp_all add: new_RectanglePacker_def)

subsection \<open>Properties of every returned result\<close>

text \<open>
  C3: for a configuration with \<open>circle_diameter > 0\<close>, \<open>rect_width > 0\<close>, \<open>rect_height > 0\<close>,
  \<open>tolerance \<ge> 0\<close> and \<open>safe_zone \<ge> 0\<close>, \<open>find_optimal_packing\<close> returns a result, and
  every rectangle of that result has 4 corners, each at a distance from the origin of at most
  \<open>effective_radius + epsilon\<close>, where \<open>effective_radius = circle_diameter / 2 - safe_zone\<close> and
  \<open>epsilon \<ge> 0\<close>.
\<close>

theorem returned_rectangles_contained:
  assumes "0 < d" and "0 < w" and "0 < h" and "0 \<le> tol" and "0 \<le> sz" and "0 \<le> eps"
  shows "\<exists>result. find_optimal_packing (new_RectanglePacker d w h tol sz) = Some (Inr result) \<and>
     (\<forall>r\<in>set (rectangles result). length (get_corners r) = 4 \<and>
        (\<forall>c\<in>set (get_corners r). sqrt ((pos_x c)\<^sup>2 + (pos_y c)\<^sup>2) \<le> d / 2 - sz + eps))"
proof -
  let ?p = "new_RectanglePacker d w h tol sz"
  obtain result where run: "find_optimal_packing ?p = Some (Inr result)"
    using find_optimal_packing_total [of ?p] assms by auto
  have "grows ?p (list_all (rectangle_fits_in_circle ?p))" by (rule grows_list_all)
  from find_optimal_packing_inv [OF run this]
  have "\<forall>r\<in>set (rectangles result). rectangle_fits_in_circle ?p r"
    by (simp add: list_all_iff)
  then have "\<forall>r\<in>set (rectangles result). length (get_corners r) = 4 \<and>
        (\<forall>c\<in>set (get_corners r). sqrt ((pos_x c)\<^sup>2 + (pos_y c)\<^sup>2) \<le> d / 2 - sz + eps)"
    using assms(6) by (fastforce simp: fits_iff get_corners_def Let_def)
  with run show ?thesis by blast
qed

text \<open>
  C5: every rectangle of the result that \<open>find_optimal_packing\<close> returns has rotation
  exactly 0 or exactly 90.
\<close>

theorem returned_rotations:
  assumes "0 < d" and "0 < w" and "0 < h" and "0 \<le> tol" and "0 \<le> sz"
  shows "\<exists>result. find_optimal_packing (new_RectanglePacker d w h tol sz) = Some (Inr result) \<and>
     (\<forall>r\<in>set (rectangles result). rotation r = 0 \<or> rotation r = 90)"
proof -
  let ?p = "new_RectanglePacker d w h tol sz"
  obtain result where run: "find_optimal_packing ?p = Some (Inr result)"
    using find_optimal_packing_total [of ?p] assms by auto
  have "grows ?p (list_all (\<lambda>r. rotation r = 0 \<or> rotation r = 90))"
    by (rule grows_list_all) (simp add: placeable_def)
  from find_optimal_packing_inv [OF run this]
  have "\<forall>r\<in>set (rectangles result). rotation r = 0 \<or> rotation r = 90"
    by (simp add: list_all_iff)
  with run show ?thesis by blast
qed


text \<open>
  C7: the result that \<open>find_optimal_packing\<close> returns satisfies the metric identities:
  \<open>count\<close> is the length of the rectangle sequence, \<open>total_area = pi * radius^2\<close>,
  \<open>used_area = count * rect_width * rect_height\<close>, \<open>total_area > 0\<close>,
  \<open>efficiency = used_area / total_area * 100\<close>, which is within \<open>1e-9\<close> of
  \<open>count * rect_width * rect_height / (pi * (circle_diameter / 2)^2) * 100\<close>, and
  \<open>waste = 100 - efficiency\<close>.
\<close>

theorem returned_metrics:
  assumes "0 < d" and "0 < w" and "0 < h" and "0 \<le> tol" and "0 \<le> sz"
  shows "\<exists>result. find_optimal_packing (new_RectanglePacker d w h tol sz) = Some (Inr result) \<and>
     count result = length (rectangles result) \<and>
     total_area result = pi * (d / 2)\<^sup>2 \<and>
     used_area result = of_nat (count result) * w * h \<and>
     0 < total_area result \<and>
     efficiency result = used_area result / total_area result * 100 \<and>
     \<bar>efficiency result - of_nat (count result) * w * h / (pi * (d / 2)\<^sup>2) * 100\<bar> \<le> 1 / 10 ^ 9 \<and>
     waste result = 100 - efficiency result"
proof -
  let ?p = "new_RectanglePacker d w h tol sz"
  obtain result where run: "find_optimal_packing ?p = Some (Inr result)"
    using find_optimal_packing_total [of ?p] assms by auto
  have "0 < pi * (d / 2)\<^sup>2" using assms(1) by simp
  with find_optimal_packing_metrics [OF run]
  have "count result = length (rectangles result) \<and>
     total_area result = pi * (d / 2)\<^sup>2 \<and>
     used_area result = of_nat (count result) * w * h \<and>
     0 < total_area result \<and>
     efficiency result = used_area result / total_area result * 100 \<and>
     \<bar>efficiency result - of_nat (count result) * w * h / (pi * (d / 2)\<^sup>2) * 100\<bar> \<le> 1 / 10 ^ 9 \<and>
     waste result = 100 - efficiency result"
    by (simp add: mult.assoc)
  with run show ?thesis by blast
qed


subsection \<open>Evaluating a run\<close>

lemma rbind_weak_cong: "m = m' \<Longrightarrow> rbind m f = rbind m' f" by simp
lemma ebind_weak_cong: "m = m' \<Longrightarrow> ebind m f = ebind m' f" by simp
lemma ebind_Inr: "ebind (Inr v) f = f v" by (simp add: ebind_def)
lemma ebind_Inl: "ebind (Inl e) f = Inl e" by (simp add: ebind_def)
lemma rbind_Inl: "rbind (Some (Inl e)) f = Some (Inl e)" by (simp add: rbind_def)
lemma rbind_None: "rbind None f = None" by (simp add: rbind_def)

lemma sq_abs_bound:
  fixes c h :: real
  assumes "0 \<le> h"
  shows "(c - h) * (c - h) \<le> (\<bar>c\<bar> + h) * (\<bar>c\<bar> + h)" "(c + h) * (c + h) \<le> (\<bar>c\<bar> + h) * (\<bar>c\<bar> + h)"
    "(c - h) * (c - h) = (\<bar>c\<bar> + h) * (\<bar>c\<bar> + h) \<or> (c + h) * (c + h) = (\<bar>c\<bar> + h) * (\<bar>c\<bar> + h)"
proof -
  have "(c - h)\<^sup>2 \<le> (\<bar>c\<bar> + h)\<^sup>2" "(c + h)\<^sup>2 \<le> (\<bar>c\<bar> + h)\<^sup>2"
    using assms by (auto intro!: iffD1 [OF abs_le_square_iff])
  then show "(c - h) * (c - h) \<le> (\<bar>c\<bar> + h) * (\<bar>c\<bar> + h)" "(c + h) * (c + h) \<le> (\<bar>c\<bar> + h) * (\<bar>c\<bar> + h)"
    by (simp_all add: power2_eq_square)
  show "(c - h) * (c - h) = (\<bar>c\<bar> + h) * (\<bar>c\<bar> + h) \<or> (c + h) * (c + h) = (\<bar>c\<bar> + h) * (\<bar>c\<bar> + h)"
    by (cases "0 \<le> c") (auto simp: algebra_simps)
qed

lemma four_corners_far:
  fixes cx cy hx hy e2 :: real
  assumes "0 \<le> hx" "0 \<le> hy"
  shows "((cx - hx) * (cx - hx) + (cy - hy) * (cy - hy) \<le> e2 \<and>
          (cx + hx) * (cx + hx) + (cy - hy) * (cy - hy) \<le> e2 \<and>
          (cx + hx) * (cx + hx) + (cy + hy) * (cy + hy) \<le> e2 \<and>
          (cx - hx) * (cx - hx) + (cy + hy) * (cy + hy) \<le> e2) =
         ((\<bar>cx\<bar> + hx) * (\<bar>cx\<bar> + hx) + (\<bar>cy\<bar> + hy) * (\<bar>cy\<bar> + hy) \<le> e2)"
proof
  assume a: "(cx - hx) * (cx - hx) + (cy - hy) * (cy - hy) \<le> e2 \<and>
          (cx + hx) * (cx + hx) + (cy - hy) * (cy - hy) \<le> e2 \<and>
          (cx + hx) * (cx + hx) + (cy + hy) * (cy + hy) \<le> e2 \<and>
          (cx - hx) * (cx - hx) + (cy + hy) * (cy + hy) \<le> e2"
  from sq_abs_bound(3) [OF assms(1), of cx] sq_abs_bound(3) [OF assms(2), of cy] a
  show "(\<bar>cx\<bar> + hx) * (\<bar>cx\<bar> + hx) + (\<bar>cy\<bar> + hy) * (\<bar>cy\<bar> + hy) \<le> e2"
    by (elim disjE) simp_all
next
  assume a: "(\<bar>cx\<bar> + hx) * (\<bar>cx\<bar> + hx) + (\<bar>cy\<bar> + hy) * (\<bar>cy\<bar> + hy) \<le> e2"
  from sq_abs_bound(1,2) [OF assms(1), of cx] sq_abs_bound(1,2) [OF assms(2), of cy] a
  show "(cx - hx) * (cx - hx) + (cy - hy) * (cy - hy) \<le> e2 \<and>
          (cx + hx) * (cx + hx) + (cy - hy) * (cy - hy) \<le> e2 \<and>
          (cx + hx) * (cx + hx) + (cy + hy) * (cy + hy) \<le> e2 \<and>
          (cx - hx) * (cx - hx) + (cy + hy) * (cy + hy) \<le> e2"
    by (intro conjI) linarith+
qed

lemma fits_far:
  assumes "rot = 0 \<or> rot = 90" "0 \<le> w" "0 \<le> h"
  shows "rectangle_fits_in_circle p (new_Rectangle (Position cx cy) w h rot) =
     far_fits (effective_radius p) cx cy (if rot = 90 then h / 2 else w / 2)
       (if rot = 90 then w / 2 else h / 2)"
proof -
  let ?hx = "if rot = 90 then h / 2 else w / 2"
  let ?hy = "if rot = 90 then w / 2 else h / 2"
  have h: "0 \<le> ?hx" "0 \<le> ?hy" using assms by auto
  have r: "rotation (new_Rectangle (Position cx cy) w h rot) = 0 \<or>
           rotation (new_Rectangle (Position cx cy) w h rot) = 90"
    using assms(1) by (simp add: new_Rectangle_def)
  have eq: "rectangle_fits_in_circle p (new_Rectangle (Position cx cy) w h rot) =
     (0 \<le> effective_radius p \<and>
      (cx - ?hx) * (cx - ?hx) + (cy - ?hy) * (cy - ?hy) \<le> effective_radius p * effective_radius p \<and>
      (cx + ?hx) * (cx + ?hx) + (cy - ?hy) * (cy - ?hy) \<le> effective_radius p * effective_radius p \<and>
      (cx + ?hx) * (cx + ?hx) + (cy + ?hy) * (cy + ?hy) \<le> effective_radius p * effective_radius p \<and>
      (cx - ?hx) * (cx - ?hx) + (cy + ?hy) * (cy + ?hy) \<le> effective_radius p * effective_radius p)"
    unfolding fits_upright [OF r]
    by (simp add: new_Rectangle_def x_span_def y_span_def half_x_def half_y_def power2_eq_square)
  show ?thesis
    unfolding eq far_fits_def four_corners_far [OF h] ..
qed

lemma upto_0: "[0..j] = (if 0 \<le> j then 0 # [1..j] else [])"
  by (subst upto.simps) simp
lemma upto_1: "[1..j] = (if 1 \<le> j then 1 # [2..j] else [])"
  by (subst upto.simps) simp
lemma upto_m1: "[- 1..j] = (if - 1 \<le> j then - 1 # [0..j] else [])"
  by (subst upto.simps) simp
lemma upto_neg: "[- numeral m..j] = (if - numeral m \<le> j then - numeral m # [- numeral m + 1..j] else [])"
  by (subst upto.simps) simp
lemmas upto_eval = upto_0 upto_1 upto_m1 upto_neg

lemma rfold_weak_cong: "vs = vs' \<Longrightarrow> s = s' \<Longrightarrow> rfold body vs s = rfold body vs' s'" by simp
lemma efold_weak_cong: "vs = vs' \<Longrightarrow> s = s' \<Longrightarrow> efold body vs s = efold body vs' s'" by simp
lemma fold_weak_cong: "vs = vs' \<Longrightarrow> s = s' \<Longrightarrow> fold f vs s = fold f vs' s'" by simp
lemma fill_while_weak_cong:
  "cur = cur' \<Longrightarrow> f = f' \<Longrightarrow> fill_while cond body adv cur f = fill_while cond body adv cur' f'"
  by simp
lemma center_while_weak_cong:
  "cur = cur' \<Longrightarrow> f = f' \<Longrightarrow> center_while p cond mk adv cur f = center_while p cond mk adv cur' f'"
  by simp
lemmas eval_congs = rbind_weak_cong ebind_weak_cong rfold_weak_cong efold_weak_cong fold_weak_cong
  fill_while_weak_cong center_while_weak_cong

lemma grid_cell_eval:
  assumes "rot = 0 \<or> rot = 90" "0 \<le> rect_width p" "0 \<le> rect_height p"
  shows "grid_cell p rot w h sx sy gx gy ox oy r c st =
     (if far_fits (effective_radius p) (sx + of_int c * gx + ox + w / 2) (sy + of_int r * gy + oy + h / 2)
           (if rot = 90 then rect_height p / 2 else rect_width p / 2)
           (if rot = 90 then rect_width p / 2 else rect_height p / 2)
      then (fst st @ [new_Rectangle (Position (sx + of_int c * gx + ox + w / 2) (sy + of_int r * gy + oy + h / 2))
                        (rect_width p) (rect_height p) rot],
            update_bounds (snd st) (sx + of_int c * gx + ox + w / 2 - w / 2) (sx + of_int c * gx + ox + w / 2 + w / 2)
              (sy + of_int r * gy + oy + h / 2 - h / 2) (sy + of_int r * gy + oy + h / 2 + h / 2))
      else st)"
  by (simp add: grid_cell_def Let_def fits_far [OF assms])

lemma offset_trial_eval:
  "offset_trial p rot alt w h ow oh gx gy osx osy sx sy i j best =
     (if gx = 0 \<or> gy = 0 then Some (Inl ZeroDivisionError)
      else case base_grid p rot w h (- radius p - w) (- radius p - h) gx gy
                (gx / of_int sx * of_int i) (gy / of_int sy * of_int j)
                (py_int ((circle_diameter p + 2 * h) / gy) + 2)
                (py_int ((circle_diameter p + 2 * w) / gx) + 2) of
        (current_rects, bnd) \<Rightarrow>
          if current_rects \<noteq> [] then
            (case bnd of None \<Rightarrow> Some (Inr best)
             | Some b \<Rightarrow> fill_stage p rot alt w h ow oh gx gy osx osy b current_rects best)
          else Some (Inr best))"
  unfolding offset_trial_eq case_prod_beta by (rule refl)

lemma overlap_eval:
  assumes "rot1 = 0 \<or> rot1 = 90" "rot2 = 0 \<or> rot2 = 90" "0 < w1" "0 < h1" "0 < w2" "0 < h2"
  shows "rectangles_overlap (new_Rectangle (Position x1 y1) w1 h1 rot1)
           (new_Rectangle (Position x2 y2) w2 h2 rot2) tol =
     Inr (projections_overlap
            (x1 - (if rot1 = 90 then h1 / 2 else w1 / 2), x1 + (if rot1 = 90 then h1 / 2 else w1 / 2))
            (x2 - (if rot2 = 90 then h2 / 2 else w2 / 2), x2 + (if rot2 = 90 then h2 / 2 else w2 / 2)) tol \<and>
          projections_overlap
            (y1 - (if rot1 = 90 then w1 / 2 else h1 / 2), y1 + (if rot1 = 90 then w1 / 2 else h1 / 2))
            (y2 - (if rot2 = 90 then w2 / 2 else h2 / 2), y2 + (if rot2 = 90 then w2 / 2 else h2 / 2)) tol)"
proof -
  have "upright (new_Rectangle (Position x1 y1) w1 h1 rot1)" "upright (new_Rectangle (Position x2 y2) w2 h2 rot2)"
    using assms by (simp_all add: upright_def new_Rectangle_def)
  from rectangles_overlap_upright [OF this] show ?thesis
    by (simp add: x_span_def y_span_def half_x_def half_y_def new_Rectangle_def)
qed

lemma pB_fields:
  "circle_diameter pB = 110" "rect_width pB = 20" "rect_height pB = 20" "radius pB = 55"
  "tolerance pB = 60" "effective_radius pB = 55"
  by (simp_all add: pB_def)

lemma pB_cell: "grid_cell pB rot w h sx sy gx gy ox oy r c st = 
  (if rot = 0 \<or> rot = 90 then 
     (if far_fits 55 (sx + of_int c * gx + ox + w / 2) (sy + of_int r * gy + oy + h / 2) 10 10
      then (fst st @ [new_Rectangle (Position (sx + of_int c * gx + ox + w / 2) (sy + of_int r * gy + oy + h / 2))
                        20 20 rot],
            update_bounds (snd st) (sx + of_int c * gx + ox + w / 2 - w / 2) (sx + of_int c * gx + ox + w / 2 + w / 2)
              (sy + of_int r * gy + oy + h / 2 - h / 2) (sy + of_int r * gy + oy + h / 2 + h / 2))
      else st)
   else grid_cell pB rot w h sx sy gx gy ox oy r c st)"
  by (auto simp: grid_cell_eval pB_fields)

lemmas eval_simps = py_range_def upto_eval pB_cell far_fits_def update_bounds_def base_grid_def
  offset_trial_eval pB_fields fill_stage_def Let_def fill_while.simps center_while.simps
  scan_y_def scan_x_def py_div_def py_int_def try_place_def fits_far overlap_eval
  projections_overlap_def min_def max_def ebind_Inr ebind_Inl rbind_Inl rbind_None rbind_Some_Inr
  strict_grid_packing_def systematic_gap_fill_def gap_fill_y.simps gap_fill_x.simps
  new_PackingResult_def

lemma sgp_B0: "strict_grid_packing pB 0 = Some (Inr (grid_B 0))"
  by (simp add: eval_simps grid_B_def rect_B1_def rect_B2_def cong: eval_congs)

lemma sgp_B90: "strict_grid_packing pB 90 = Some (Inr (grid_B 90))"
  by (simp add: eval_simps grid_B_def rect_B1_def rect_B2_def cong: eval_congs)

lemma overlap_B: "rectangles_overlap (rect_B1 rot) (rect_B2 rot) 60 = Inr True" if "rot = 0 \<or> rot = 90"
  using that by (auto simp: rect_B1_def rect_B2_def overlap_eval projections_overlap_def)

lemma validate_B: "validate_no_overlaps pB (rectangles (grid_B rot)) = Inr False" if "rot = 0 \<or> rot = 90"
proof -
  have "rectangles_overlap (rect_B1 (of_int rot)) (rect_B2 (of_int rot)) 60 = Inr True"
    using that by (intro overlap_B) auto
  then show ?thesis
    by (simp add: grid_B_def pB_fields ebind_Inr)
qed

lemma count_grid_B: "count (grid_B rot) = 2"
  by (simp add: grid_B_def)

lemma run_B: "find_optimal_packing pB = Some (Inr result_B)"
proof -
  have "find_optimal_packing pB = Some (Inr (calculate_efficiency pB (grid_B 0)))"
    unfolding find_optimal_packing_def
    by (simp add: sgp_B0 sgp_B90 rbind_Some_Inr validate_B ebind_Inr Let_def count_grid_B)
  also have "calculate_efficiency pB (grid_B 0) = result_B"
    by (simp add: calculate_efficiency_def result_B_def grid_B_def pB_fields Let_def)
  finally show ?thesis .
qed

subsection \<open>The final validation\<close>

lemma validate_row_iff:
  "validate_row p ri rest = Inr (\<forall>rj\<in>set rest. rectangles_overlap ri rj (tolerance p) = Inr False)"
proof (induction rest)
  case Nil
  show ?case by simp
next
  case (Cons rj rest)
  obtain b where b: "rectangles_overlap ri rj (tolerance p) = Inr b"
    using rectangles_overlap_total by blast
  with Cons show ?case by (cases b) (simp_all add: ebind_Inr)
qed

lemma validate_no_overlaps_iff:
  "validate_no_overlaps p rs =
     Inr (sorted_wrt (\<lambda>a b. rectangles_overlap a b (tolerance p) = Inr False) rs)"
proof (induction rs)
  case Nil
  show ?case by simp
next
  case (Cons r rs)
  then show ?case by (simp add: validate_row_iff ebind_Inr)
qed

lemma valid_results_valid:
  assumes "efold (\<lambda>result valid_results.
             ebind (validate_no_overlaps p (rectangles result)) (\<lambda>ok.
               Inr (if ok then valid_results @ [result] else valid_results)))
           results acc = Inr valid"
    and "\<forall>r\<in>set acc. validate_no_overlaps p (rectangles r) = Inr True"
  shows "(\<forall>r\<in>set valid. validate_no_overlaps p (rectangles r) = Inr True) \<and>
         (\<forall>r\<in>set results. validate_no_overlaps p (rectangles r) = Inr True \<longrightarrow> r \<in> set valid) \<and>
         set acc \<subseteq> set valid"
  using assms
proof (induction results arbitrary: acc)
  case Nil
  then show ?case by simp
next
  case (Cons r results)
  obtain ok where ok: "validate_no_overlaps p (rectangles r) = Inr ok"
    using validate_no_overlaps_total by blast
  with Cons.prems(1) have
    rest: "efold (\<lambda>result valid_results.
             ebind (validate_no_overlaps p (rectangles result)) (\<lambda>ok.
               Inr (if ok then valid_results @ [result] else valid_results)))
           results (if ok then acc @ [r] else acc) = Inr valid"
    by (simp add: ebind_Inr)
  have "\<forall>q\<in>set (if ok then acc @ [r] else acc). validate_no_overlaps p (rectangles q) = Inr True"
    using Cons.prems(2) ok by auto
  from Cons.IH [OF rest this] ok show ?case by (auto split: if_splits)
qed

text \<open>
  The final validation does what it is meant to do: when one of the two candidates passes
  it, no pair of distinct rectangles of the returned result is reported as colliding.
\<close>

lemma validated_result_has_no_reported_pair:
  assumes run: "find_optimal_packing p = Some (Inr result)"
    and r0: "strict_grid_packing p 0 = Some (Inr r0)"
    and r90: "strict_grid_packing p 90 = Some (Inr r90)"
    and ok: "validate_no_overlaps p (rectangles r0) = Inr True \<or>
             validate_no_overlaps p (rectangles r90) = Inr True"
  shows "\<forall>i<length (rectangles result). \<forall>j<length (rectangles result). i \<noteq> j \<longrightarrow>
           rectangles_overlap (rectangles result ! i) (rectangles result ! j) (tolerance p) = Inr False"
proof -
  from run [unfolded find_optimal_packing_def Let_def r0 r90 rbind_Some_Inr option.inject ebind_Inr_iff]
  obtain valid best where
    v: "efold (\<lambda>result valid_results.
             ebind (validate_no_overlaps p (rectangles result)) (\<lambda>ok.
               Inr (if ok then valid_results @ [result] else valid_results)))
           [r0, r90] [] = Inr valid"
    and b: "(if valid \<noteq> [] then py_max_key count valid
             else if [r0, r90] \<noteq> [] then py_max_key count [r0, r90]
             else Inr new_PackingResult) = Inr best"
    and res: "result = calculate_efficiency p best"
    by auto
  from valid_results_valid [OF v] ok have ne: "valid \<noteq> []"
    and all: "\<forall>r\<in>set valid. validate_no_overlaps p (rectangles r) = Inr True"
    by auto
  from b ne have "py_max_key count valid = Inr best" by simp
  from py_max_key_in [OF this] all have "validate_no_overlaps p (rectangles best) = Inr True" by blast
  then have sw: "sorted_wrt (\<lambda>a b. rectangles_overlap a b (tolerance p) = Inr False) (rectangles result)"
    by (simp add: validate_no_overlaps_iff res calculate_efficiency_fields)
  show ?thesis
  proof (intro allI impI)
    fix i j assume i: "i < length (rectangles result)" and j: "j < length (rectangles result)"
      and ij: "i \<noteq> j"
    show "rectangles_overlap (rectangles result ! i) (rectangles result ! j) (tolerance p) = Inr False"
    proof (cases "i < j")
      case True
      with sw j show ?thesis by (simp add: sorted_wrt_iff_nth_less)
    next
      case False
      with ij have "j < i" by simp
      with sw i have "rectangles_overlap (rectangles result ! j) (rectangles result ! i) (tolerance p) = Inr False"
        by (simp add: sorted_wrt_iff_nth_less)
      then show ?thesis by (simp add: rectangles_overlap_sym)
    qed
  qed
qed

subsection \<open>Grid neighbours under a positive clearance\<close>

text \<open>
  The base grid places neighbours at a distance of \<open>width + tolerance\<close> between centers, so
  their facing edges are exactly \<open>tolerance\<close> apart. For a tolerance of at least
  \<open>epsilon = 1e-6\<close> the overlap test reports such a pair as colliding, since it asks for
  \<open>gap > - tolerance - epsilon\<close> and the gap is \<open>- tolerance\<close>.
\<close>

lemma grid_neighbours_flagged:
  assumes "0 < w" "0 < h" "1 / 1000000 \<le> tol"
  shows "rectangles_overlap (new_Rectangle (Position cx cy) w h 0)
           (new_Rectangle (Position (cx + (w + tol)) cy) w h 0) tol = Inr True"
  using assms by (simp add: overlap_eval projections_overlap_def min_def max_def)

text \<open>
  C1: no two rectangles of a returned result are reported as colliding by
  \<open>rectangles_overlap\<close> under the configured tolerance. The code does not keep this: for a
  circle of diameter 110, squares of side 20, tolerance 60 and safe zone 0,
  \<open>find_optimal_packing\<close> returns the two grid neighbours centered at \<open>(-41, -9)\<close> and
  \<open>(39, -9)\<close>, and \<open>rectangles_overlap\<close> under the tolerance 60 reports this pair as
  colliding. Both candidates fail the final validation, and the fallback returns one of them.
\<close>

theorem returned_pair_reported_colliding:
  "find_optimal_packing (new_RectanglePacker 110 20 20 60 0) = Some (Inr result_B) \<and>
   rectangles result_B = [rect_B1 0, rect_B2 0] \<and>
   rect_B1 0 = new_Rectangle (Position (- 41) (- 9)) 20 20 0 \<and>
   rect_B2 0 = new_Rectangle (Position 39 (- 9)) 20 20 0 \<and>
   rectangles_overlap (rect_B1 0) (rect_B2 0) 60 = Inr True"
  using run_B overlap_B [of 0]
  by (simp add: pB_def result_B_def grid_B_def rect_B1_def rect_B2_def)

subsection \<open>The properties at the evaluated run\<close>

lemma corners_B:
  "get_corners (rect_B1 0) =
     [Position (- 51) (- 19), Position (- 31) (- 19), Position (- 31) 1, Position (- 51) 1]"
  "get_corners (rect_B2 0) =
     [Position 29 (- 19), Position 49 (- 19), Position 49 1, Position 29 1]"
  by (simp_all add: rect_B1_def rect_B2_def new_Rectangle_def get_corners_0)

theorem returned_rectangles_contained_witness:
  "find_optimal_packing (new_RectanglePacker 110 20 20 60 0) = Some (Inr result_B) \<and>
   rectangles result_B = [rect_B1 0, rect_B2 0] \<and>
   get_corners (rect_B1 0) =
     [Position (- 51) (- 19), Position (- 31) (- 19), Position (- 31) 1, Position (- 51) 1] \<and>
   sqrt ((- 51)\<^sup>2 + (- 19)\<^sup>2) \<le> 110 / 2 - 0 + 0 \<and>
   sqrt (49\<^sup>2 + (- 19)\<^sup>2) \<le> 110 / 2 - 0 + 0"
proof -
  from returned_rectangles_contained [of 110 20 20 60 0 0] run_B
  have "\<forall>r\<in>set (rectangles result_B). length (get_corners r) = 4 \<and>
        (\<forall>c\<in>set (get_corners r). sqrt ((pos_x c)\<^sup>2 + (pos_y c)\<^sup>2) \<le> 110 / 2 - 0 + 0)"
    by (simp add: pB_def)
  moreover have r: "rectangles result_B = [rect_B1 0, rect_B2 0]"
    by (simp add: result_B_def grid_B_def)
  ultimately have
    "\<forall>c\<in>set (get_corners (rect_B1 0)). sqrt ((pos_x c)\<^sup>2 + (pos_y c)\<^sup>2) \<le> 110 / 2 - 0 + 0"
    "\<forall>c\<in>set (get_corners (rect_B2 0)). sqrt ((pos_x c)\<^sup>2 + (pos_y c)\<^sup>2) \<le> 110 / 2 - 0 + 0"
    by simp_all
  then have "sqrt ((- 51)\<^sup>2 + (- 19)\<^sup>2) \<le> 110 / 2 - 0 + 0"
    "sqrt (49\<^sup>2 + (- 19)\<^sup>2) \<le> 110 / 2 - 0 + 0"
    unfolding corners_B by simp_all
  with run_B r corners_B(1) show ?thesis by (simp add: pB_def)
qed

theorem returned_rotations_witness:
  "find_optimal_packing (new_RectanglePacker 110 20 20 60 0) = Some (Inr result_B) \<and>
   rectangles result_B = [rect_B1 0, rect_B2 0] \<and>
   (rotation (rect_B1 0) = 0 \<or> rotation (rect_B1 0) = 90) \<and>
   (rotation (rect_B2 0) = 0 \<or> rotation (rect_B2 0) = 90)"
proof -
  from returned_rotations [of 110 20 20 60 0] run_B
  have "\<forall>r\<in>set (rectangles result_B). rotation r = 0 \<or> rotation r = 90"
    by (simp add: pB_def)
  moreover have r: "rectangles result_B = [rect_B1 0, rect_B2 0]"
    by (simp add: result_B_def grid_B_def)
  ultimately have "(rotation (rect_B1 0) = 0 \<or> rotation (rect_B1 0) = 90) \<and>
   (rotation (rect_B2 0) = 0 \<or> rotation (rect_B2 0) = 90)"
    by simp
  with run_B r show ?thesis by (simp add: pB_def)
qed

theorem returned_metrics_witness:
  "find_optimal_packing (new_RectanglePacker 110 20 20 60 0) = Some (Inr result_B) \<and>
   count result_B = 2 \<and> length (rectangles result_B) = 2 \<and>
   total_area result_B = pi * (110 / 2)\<^sup>2 \<and>
   used_area result_B = 2 * 20 * 20 \<and>
   efficiency result_B = used_area result_B / total_area result_B * 100 \<and>
   waste result_B = 100 - efficiency result_B"
proof -
  from returned_metrics [of 110 20 20 60 0] run_B
  have "count result_B = length (rectangles result_B) \<and>
     total_area result_B = pi * (110 / 2)\<^sup>2 \<and>
     used_area result_B = of_nat (count result_B) * 20 * 20 \<and>
     efficiency result_B = used_area result_B / total_area result_B * 100 \<and>
     waste result_B = 100 - efficiency result_B"
    by (simp add: pB_def)
  moreover have "count result_B = 2" by (simp add: result_B_def grid_B_def)
  ultimately show ?thesis using run_B by (simp add: pB_def)
qed

end
